theory Spec2Isabelle
  imports Main
begin

section \<open>Futures of the event loop\<close>

text \<open>
  The exceptions raised by \<^verbatim>\<open>Lib/asyncio/locks.py\<close> and \<^verbatim>\<open>Lib/asyncio/streams.py\<close>.
  \<open>TransportError\<close> stands for an exception object handed in by the transport
  (the argument of \<^verbatim>\<open>connection_lost\<close> or \<^verbatim>\<open>set_exception\<close>).
\<close>

type_synonym bytes = string

datatype exn =
    CancelledError
  | RuntimeError string
  | ValueError string
  | AssertionError
  | AttributeError
  | BrokenBarrierError
  | ConnectionResetError string
  | IncompleteReadError bytes "int option"
  | LimitOverrunError string int
  | TransportError nat

text \<open>
  A future is pending until it gets a result, an exception, or is cancelled;
  \<^verbatim>\<open>done()\<close> holds in the three final states.
\<close>

datatype fut = Pending | Result | Failed exn | Cancelled

definition fut_done :: "fut \<Rightarrow> bool" where
  "fut_done f = (f \<noteq> Pending)"

definition fut_cancelled :: "fut \<Rightarrow> bool" where
  "fut_cancelled f = (f = Cancelled)"

text \<open>\<^verbatim>\<open>fut.cancel()\<close>: a pending future becomes cancelled, a done one is left alone.\<close>

definition fut_cancel :: "fut \<Rightarrow> fut" where
  "fut_cancel f = (if fut_done f then f else Cancelled)"

text \<open>
  The futures created by \<^verbatim>\<open>loop.create_future()\<close> live in a store indexed by
  creation order; \<open>nfut\<close> is the number created so far.
\<close>

record loop =
  futs :: "nat \<Rightarrow> fut"
  nfut :: nat

definition create_future :: "'a loop_scheme \<Rightarrow> nat \<times> 'a loop_scheme" where
  "create_future s = (nfut s, s\<lparr>futs := (futs s)(nfut s := Pending), nfut := Suc (nfut s)\<rparr>)"

section \<open>Lock\<close>

text \<open>
  \<^verbatim>\<open>Lock._waiters\<close> is \<^verbatim>\<open>None\<close> until the first contended acquire, then a deque of
  futures.
\<close>

record lock = loop +
  lock_locked :: bool
  lock_waiters :: "nat list option"

definition lock_init :: "lock" where
  "lock_init = \<lparr>futs = (\<lambda>_. Pending), nfut = 0, lock_locked = False, lock_waiters = None\<rparr>"

definition locked :: "'a lock_scheme \<Rightarrow> bool" where
  "locked s = lock_locked s"

text \<open>\<^verbatim>\<open>Lock._wake_up_first\<close>: only the head of the deque is looked at.\<close>

definition wake_up_first :: "'a lock_scheme \<Rightarrow> 'a lock_scheme" where
  "wake_up_first s =
     (case lock_waiters s of
        None \<Rightarrow> s
      | Some [] \<Rightarrow> s
      | Some (fut # _) \<Rightarrow>
          if \<not> fut_done (futs s fut) then s\<lparr>futs := (futs s)(fut := Result)\<rparr> else s)"

definition release :: "'a lock_scheme \<Rightarrow> exn + 'a lock_scheme" where
  "release s =
     (if lock_locked s then Inr (wake_up_first (s\<lparr>lock_locked := False\<rparr>))
      else Inl (RuntimeError ''Lock is not acquired.''))"

text \<open>
  \<^verbatim>\<open>Lock.acquire\<close> up to its suspension point: \<open>Inl True\<close> is the immediate return,
  \<open>Inr fut\<close> the future the coroutine now awaits.
\<close>

definition acquire_begin :: "'a lock_scheme \<Rightarrow> (bool + nat) \<times> 'a lock_scheme" where
  "acquire_begin s =
     (if \<not> lock_locked s \<and>
         (case lock_waiters s of None \<Rightarrow> True
          | Some ws \<Rightarrow> list_all (\<lambda>w. fut_cancelled (futs s w)) ws)
      then (Inl True, s\<lparr>lock_locked := True\<rparr>)
      else
        let ws = (case lock_waiters s of None \<Rightarrow> [] | Some ws \<Rightarrow> ws);
            (fut, s1) = create_future s
        in (Inr fut, s1\<lparr>lock_waiters := Some (ws @ [fut])\<rparr>))"

text \<open>
  \<^verbatim>\<open>Lock.acquire\<close> from the point where \<^verbatim>\<open>await fut\<close> finishes; \<open>exc\<close> is the
  exception the await raised, if any. The \<^verbatim>\<open>finally\<close> clause removes the future
  from the deque (\<^verbatim>\<open>deque.remove\<close> raises \<^verbatim>\<open>ValueError\<close> when it is absent, and
  there is no deque to call it on when \<^verbatim>\<open>_waiters\<close> is \<^verbatim>\<open>None\<close>); only
  \<^verbatim>\<open>CancelledError\<close> reaches the \<^verbatim>\<open>except\<close> clause.
\<close>

definition acquire_resume ::
  "nat \<Rightarrow> exn option \<Rightarrow> 'a lock_scheme \<Rightarrow> (exn + bool) \<times> 'a lock_scheme" where
  "acquire_resume fut exc s =
     (case lock_waiters s of
        None \<Rightarrow> (Inl AttributeError, s)
      | Some ws \<Rightarrow>
          if fut \<notin> set ws then (Inl (ValueError ''deque.remove(x): x not in deque''), s)
          else
            let s1 = s\<lparr>lock_waiters := Some (remove1 fut ws)\<rparr> in
            (case exc of
               Some CancelledError \<Rightarrow>
                 (Inl CancelledError, if \<not> lock_locked s1 then wake_up_first s1 else s1)
             | Some e \<Rightarrow> (Inl e, s1)
             | None \<Rightarrow> (Inr True, s1\<lparr>lock_locked := True\<rparr>)))"

text \<open>
  What \<^verbatim>\<open>await fut\<close> does when the task runs again: it raises \<^verbatim>\<open>CancelledError\<close>
  when the task was cancelled or the future is, raises the future's exception, or
  returns.
\<close>

definition await_outcome :: "bool \<Rightarrow> fut \<Rightarrow> exn option" where
  "await_outcome must_cancel f =
     (if must_cancel then Some CancelledError
      else case f of Cancelled \<Rightarrow> Some CancelledError | Failed e \<Rightarrow> Some e | _ \<Rightarrow> None)"

subsection \<open>Tasks using a lock\<close>

text \<open>
  Tasks run on one thread and interleave only at \<^verbatim>\<open>await\<close>. A task is outside the
  lock, suspended in \<^verbatim>\<open>acquire\<close> on its future (the flag says that the task was
  cancelled after the future was already done, so that \<^verbatim>\<open>CancelledError\<close> is thrown
  into it when it runs), or between its successful acquire and its release.
\<close>

datatype ltask = Idle | Waiting nat bool | Holding

datatype levent = Acquire nat | Release nat | Resume nat | Cancel nat

record lsys = lock +
  tasks :: "nat \<Rightarrow> ltask"

definition lsys_init :: lsys where
  "lsys_init = \<lparr>futs = (\<lambda>_. Pending), nfut = 0, lock_locked = False, lock_waiters = None,
                 tasks = (\<lambda>_. Idle)\<rparr>"

text \<open>
  One scheduling step. An event that the task cannot perform in its current state
  (it is not at that point of its program, or its future is still pending) leaves
  the system as it is. \<open>Cancel\<close> is \<^verbatim>\<open>Task.cancel()\<close>: it cancels the awaited future
  when that is pending, and otherwise marks the task.
\<close>

fun lstep :: "levent \<Rightarrow> lsys \<Rightarrow> lsys" where
  "lstep (Acquire t) s =
     (case tasks s t of
        Idle \<Rightarrow>
          (case acquire_begin s of
             (Inl _, s1) \<Rightarrow> s1\<lparr>tasks := (tasks s1)(t := Holding)\<rparr>
           | (Inr fut, s1) \<Rightarrow> s1\<lparr>tasks := (tasks s1)(t := Waiting fut False)\<rparr>)
      | _ \<Rightarrow> s)"
| "lstep (Release t) s =
     (case tasks s t of
        Holding \<Rightarrow>
          (case release s of
             Inl _ \<Rightarrow> s\<lparr>tasks := (tasks s)(t := Idle)\<rparr>
           | Inr s1 \<Rightarrow> s1\<lparr>tasks := (tasks s1)(t := Idle)\<rparr>)
      | _ \<Rightarrow> s)"
| "lstep (Resume t) s =
     (case tasks s t of
        Waiting fut must_cancel \<Rightarrow>
          if \<not> fut_done (futs s fut) then s
          else
            (case acquire_resume fut (await_outcome must_cancel (futs s fut)) s of
               (Inl _, s1) \<Rightarrow> s1\<lparr>tasks := (tasks s1)(t := Idle)\<rparr>
             | (Inr _, s1) \<Rightarrow> s1\<lparr>tasks := (tasks s1)(t := Holding)\<rparr>)
      | _ \<Rightarrow> s)"
| "lstep (Cancel t) s =
     (case tasks s t of
        Waiting fut must_cancel \<Rightarrow>
          if fut_done (futs s fut) then s\<lparr>tasks := (tasks s)(t := Waiting fut True)\<rparr>
          else s\<lparr>futs := (futs s)(fut := Cancelled)\<rparr>
      | _ \<Rightarrow> s)"

definition lrun :: "levent list \<Rightarrow> lsys \<Rightarrow> lsys" where
  "lrun evs s = fold lstep evs s"

subsection \<open>The invariant of the lock\<close>

text \<open>
  The deque holds distinct futures created by the loop, and a future of the deque that
  has its result is the head of the deque while the lock is free: it belongs to the
  task that \<^verbatim>\<open>_wake_up_first\<close> chose to take the lock next.
\<close>

definition wl :: "'a lock_scheme \<Rightarrow> nat list" where
  "wl s = (case lock_waiters s of None \<Rightarrow> [] | Some ws \<Rightarrow> ws)"

lemma wl_upd [simp]:
  "wl (s\<lparr>futs := h\<rparr>) = wl s" "wl (s\<lparr>nfut := n\<rparr>) = wl s"
  "wl (s\<lparr>lock_locked := b\<rparr>) = wl s" "wl (s\<lparr>lock_waiters := Some ws\<rparr>) = ws"
  by (simp_all add: wl_def)

lemma wl_tasks [simp]: "wl (s\<lparr>tasks := ts\<rparr>) = wl s"
  by (simp add: wl_def)

definition lock_inv :: "'a lock_scheme \<Rightarrow> bool" where
  "lock_inv s \<longleftrightarrow>
     distinct (wl s) \<and> (\<forall>f\<in>set (wl s). f < nfut s) \<and>
     (\<forall>f\<in>set (wl s). futs s f = Result \<longrightarrow> \<not> lock_locked s \<and> f = hd (wl s))"

lemma lock_inv_wake:
  assumes "lock_inv s" "\<not> lock_locked s"
  shows "lock_inv (wake_up_first s)"
proof (cases "wl s")
  case Nil
  then have "wake_up_first s = s"
    by (auto simp: wake_up_first_def wl_def split: option.splits)
  with assms show ?thesis by simp
next
  case (Cons g gs)
  then have w: "lock_waiters s = Some (g # gs)"
    by (auto simp: wl_def split: option.splits)
  show ?thesis
  proof (cases "fut_done (futs s g)")
    case True
    with w have "wake_up_first s = s" by (simp add: wake_up_first_def)
    with assms show ?thesis by simp
  next
    case False
    with w have e: "wake_up_first s = s\<lparr>futs := (futs s)(g := Result)\<rparr>"
      by (simp add: wake_up_first_def)
    from assms Cons show ?thesis unfolding e
      by (auto simp: lock_inv_def)
  qed
qed

lemma lock_inv_release:
  assumes "lock_inv s" "lock_locked s"
  shows "\<exists>s'. release s = Inr s' \<and> lock_inv s' \<and> \<not> lock_locked s'"
proof -
  let ?s1 = "s\<lparr>lock_locked := False\<rparr>"
  have "lock_inv ?s1" using assms by (auto simp: lock_inv_def)
  then have "lock_inv (wake_up_first ?s1)" by (rule lock_inv_wake) simp
  moreover have "\<not> lock_locked (wake_up_first ?s1)"
    by (simp add: wake_up_first_def split: option.splits list.splits)
  ultimately show ?thesis using assms by (simp add: release_def)
qed

lemma lock_inv_acquire_begin:
  assumes "lock_inv s" "acquire_begin s = (r, s')"
  shows "lock_inv s' \<and> (case r of Inl _ \<Rightarrow> \<not> lock_locked s \<and> lock_locked s'
                          | Inr _ \<Rightarrow> lock_locked s' = lock_locked s)"
proof (cases "\<not> lock_locked s \<and> list_all (\<lambda>w. fut_cancelled (futs s w)) (wl s)")
  case True
  then have "acquire_begin s = (Inl True, s\<lparr>lock_locked := True\<rparr>)"
    by (auto simp: acquire_begin_def wl_def split: option.splits)
  with assms True show ?thesis
    by (auto simp: lock_inv_def list_all_iff fut_cancelled_def)
next
  case False
  then have "acquire_begin s =
     (Inr (nfut s), s\<lparr>futs := (futs s)(nfut s := Pending), nfut := Suc (nfut s),
                      lock_waiters := Some (wl s @ [nfut s])\<rparr>)"
    by (auto simp: acquire_begin_def wl_def create_future_def split: option.splits)
  with assms have r: "r = Inr (nfut s)" and s': "s' = s\<lparr>futs := (futs s)(nfut s := Pending), nfut := Suc (nfut s),
                      lock_waiters := Some (wl s @ [nfut s])\<rparr>" by auto
  have "wl s' = wl s @ [nfut s]" by (simp add: s')
  moreover have "lock_locked s' = lock_locked s" "nfut s' = Suc (nfut s)" "futs s' = (futs s)(nfut s := Pending)" by (simp_all add: s')
  ultimately show ?thesis using assms(1) unfolding lock_inv_def r
    by (cases "wl s") (auto simp: less_Suc_eq)
qed


lemma hd_remove1: "distinct ws \<Longrightarrow> g \<in> set (remove1 f ws) \<Longrightarrow> g = hd ws \<Longrightarrow> hd (remove1 f ws) = g"
  by (cases ws) (auto split: if_splits)

lemma lock_inv_acquire_resume:
  assumes "lock_inv s" "acquire_resume f exc s = (r, s')" "exc = None \<longrightarrow> futs s f = Result"
  shows "lock_inv s' \<and> (case r of Inr _ \<Rightarrow> \<not> lock_locked s \<and> lock_locked s'
                          | Inl _ \<Rightarrow> lock_locked s' = lock_locked s)"
proof (cases "f \<in> set (wl s)")
  case False
  then have "acquire_resume f exc s = (Inl AttributeError, s) \<or>
             acquire_resume f exc s = (Inl (ValueError ''deque.remove(x): x not in deque''), s)"
    by (auto simp: acquire_resume_def wl_def split: option.splits)
  with assms show ?thesis by auto
next
  case True
  then have w: "lock_waiters s = Some (wl s)"
    by (cases "lock_waiters s") (simp_all add: wl_def)
  let ?s1 = "s\<lparr>lock_waiters := Some (remove1 f (wl s))\<rparr>"
  have i1: "distinct (wl ?s1)" "\<forall>g\<in>set (wl ?s1). g < nfut ?s1"
    "\<forall>g\<in>set (wl ?s1). futs ?s1 g = Result \<longrightarrow> \<not> lock_locked ?s1 \<and> g = hd (wl ?s1)"
    using assms(1) by (auto simp: lock_inv_def hd_remove1 dest: notin_set_remove1)
  then have inv1: "lock_inv ?s1" by (simp add: lock_inv_def)
  show ?thesis
  proof (cases exc)
    case None
    with assms(3) have res: "futs s f = Result" by simp
    with assms(1) True have nl: "\<not> lock_locked s" and hd: "f = hd (wl s)"
      by (auto simp: lock_inv_def)
    have nores: "\<forall>g\<in>set (remove1 f (wl s)). futs s g \<noteq> Result"
      using assms(1) hd by (auto simp: lock_inv_def)
    from None w True assms(2) have r: "r = Inr True" and s': "s' = ?s1\<lparr>lock_locked := True\<rparr>"
      by (auto simp: acquire_resume_def Let_def)
    show ?thesis unfolding r s' using i1 nores nl by (auto simp: lock_inv_def)
  next
    case (Some e)
    show ?thesis
    proof (cases "e = CancelledError")
      case True
      with Some w \<open>f \<in> set (wl s)\<close> assms(2) have r: "r = Inl CancelledError"
        and s': "s' = (if \<not> lock_locked ?s1 then wake_up_first ?s1 else ?s1)"
        by (auto simp: acquire_resume_def Let_def)
      have "lock_inv s'"
      proof (cases "lock_locked s")
        case True
        then show ?thesis using inv1 by (simp add: s')
      next
        case False
        then have "\<not> lock_locked ?s1" by simp
        with inv1 have "lock_inv (wake_up_first ?s1)" by (rule lock_inv_wake)
        with False show ?thesis by (simp add: s')
      qed
      moreover have "lock_locked s' = lock_locked s" unfolding s'
        by (simp add: wake_up_first_def split: option.splits list.splits)
      ultimately show ?thesis by (simp add: r)
    next
      case False
      with Some w \<open>f \<in> set (wl s)\<close> assms(2) have r: "r = Inl e" and s': "s' = ?s1"
        by (auto simp: acquire_resume_def Let_def split: exn.splits)
      show ?thesis unfolding r s' using inv1 by simp
    qed
  qed
qed

definition lsys_inv :: "lsys \<Rightarrow> bool" where
  "lsys_inv s \<longleftrightarrow>
     lock_inv s \<and>
     (\<forall>t. tasks s t = Holding \<longrightarrow> lock_locked s \<and> (\<forall>t'. tasks s t' = Holding \<longrightarrow> t' = t))"

lemma tasks_wake [simp]: "tasks (wake_up_first s) = tasks s"
  by (simp add: wake_up_first_def split: option.splits list.splits)

lemma tasks_release: "release s = Inr s' \<Longrightarrow> tasks s' = tasks s"
  by (auto simp: release_def split: if_splits)

lemma tasks_acquire_begin: "acquire_begin s = (r, s') \<Longrightarrow> tasks s' = tasks s"
  by (auto simp: acquire_begin_def create_future_def Let_def split: if_splits)

lemma tasks_acquire_resume: "acquire_resume f exc s = (r, s') \<Longrightarrow> tasks s' = tasks s"
  by (auto simp: acquire_resume_def Let_def split: if_splits option.splits exn.splits)

lemma lock_inv_tasks [simp]: "lock_inv (s\<lparr>tasks := ts\<rparr>) = lock_inv s"
  by (simp add: lock_inv_def)

lemma lsys_inv_init: "lsys_inv lsys_init"
  by (simp add: lsys_inv_def lock_inv_def lsys_init_def wl_def)

lemma lsys_inv_step:
  assumes "lsys_inv s"
  shows "lsys_inv (lstep e s)"
proof (cases e)
  case (Acquire t)
  show ?thesis
  proof (cases "tasks s t = Idle")
    case False
    then have "lstep e s = s" by (simp add: Acquire split: ltask.splits)
    with assms show ?thesis by simp
  next
    case True
    obtain r s1 where ab: "acquire_begin s = (r, s1)" by (cases "acquire_begin s")
    from lock_inv_acquire_begin[OF _ ab] assms
    have i: "lock_inv s1" and c: "case r of Inl _ \<Rightarrow> \<not> lock_locked s \<and> lock_locked s1
                          | Inr _ \<Rightarrow> lock_locked s1 = lock_locked s"
      by (auto simp: lsys_inv_def)
    have ts: "tasks s1 = tasks s" using ab by (rule tasks_acquire_begin)
    show ?thesis using assms True i c ts ab
      by (cases r) (auto simp: Acquire lsys_inv_def)
  qed
next
  case (Release t)
  show ?thesis
  proof (cases "tasks s t = Holding")
    case False
    then have "lstep e s = s" by (simp add: Release split: ltask.splits)
    with assms show ?thesis by simp
  next
    case True
    with assms have "lock_locked s" by (auto simp: lsys_inv_def)
    with lock_inv_release[of s] assms obtain s1 where
      r: "release s = Inr s1" and i: "lock_inv s1" and nl: "\<not> lock_locked s1"
      by (auto simp: lsys_inv_def)
    have ts: "tasks s1 = tasks s" using r by (rule tasks_release)
    show ?thesis using assms True i nl ts r
      by (auto simp: Release lsys_inv_def)
  qed
next
  case (Resume t)
  show ?thesis
  proof (cases "tasks s t")
    case (Waiting f mc)
    show ?thesis
    proof (cases "fut_done (futs s f)")
      case False
      with Waiting have "lstep e s = s" by (simp add: Resume)
      with assms show ?thesis by simp
    next
      case True
      obtain r s1 where ar: "acquire_resume f (await_outcome mc (futs s f)) s = (r, s1)"
        by (cases "acquire_resume f (await_outcome mc (futs s f)) s")
      have "await_outcome mc (futs s f) = None \<longrightarrow> futs s f = Result"
        using True by (auto simp: await_outcome_def fut_done_def split: fut.splits if_splits)
      from lock_inv_acquire_resume[OF _ ar this] assms
      have i: "lock_inv s1" and c: "case r of Inr _ \<Rightarrow> \<not> lock_locked s \<and> lock_locked s1
                          | Inl _ \<Rightarrow> lock_locked s1 = lock_locked s"
        by (auto simp: lsys_inv_def)
      have ts: "tasks s1 = tasks s" using ar by (rule tasks_acquire_resume)
      show ?thesis using assms True Waiting i c ts ar
        by (cases r) (auto simp: Resume lsys_inv_def)
    qed
  qed (use assms in \<open>simp_all add: Resume\<close>)
next
  case (Cancel t)
  show ?thesis
  proof (cases "tasks s t")
    case (Waiting f mc)
    show ?thesis
    proof (cases "fut_done (futs s f)")
      case True
      with Waiting assms show ?thesis by (auto simp: Cancel lsys_inv_def)
    next
      case False
      with Waiting have e: "lstep e s = s\<lparr>futs := (futs s)(f := Cancelled)\<rparr>"
        by (simp add: Cancel)
      from False have "futs s f = Pending" by (simp add: fut_done_def)
      with assms show ?thesis unfolding e
        by (auto simp: lsys_inv_def lock_inv_def)
    qed
  qed (use assms in \<open>simp_all add: Cancel\<close>)
qed

lemma lsys_inv_run: "lsys_inv s \<Longrightarrow> lsys_inv (lrun evs s)"
  unfolding lrun_def by (induction evs arbitrary: s) (simp_all add: lsys_inv_step)


subsection \<open>Mutual exclusion\<close>

text \<open>
  Claim C1. Tasks acquire, hold and release the lock, interleaving only at the
  \<^verbatim>\<open>await\<close> of \<^verbatim>\<open>acquire\<close>, and may be cancelled while they wait; a task calls
  \<^verbatim>\<open>release()\<close> only between its own successful acquire and its release (the lock has
  no owner, so a release by another task would free it). After every sequence of
  such steps from the unlocked lock at most one task is between its successful
  acquire and its release, and that task sees \<^verbatim>\<open>locked()\<close> true. In every state of a
  lock, \<^verbatim>\<open>release()\<close> on an unlocked lock fails with the \<^verbatim>\<open>RuntimeError\<close>
  ``Lock is not acquired.''
\<close>

theorem lock_mutual_exclusion:
  "(\<forall>t t'. tasks (lrun evs lsys_init) t = Holding \<and> tasks (lrun evs lsys_init) t' = Holding
      \<longrightarrow> t' = t) \<and>
   (\<forall>t. tasks (lrun evs lsys_init) t = Holding \<longrightarrow> locked (lrun evs lsys_init)) \<and>
   (\<not> locked s \<longrightarrow> release s = Inl (RuntimeError ''Lock is not acquired.''))"
proof -
  have "lsys_inv (lrun evs lsys_init)"
    using lsys_inv_init by (rule lsys_inv_run)
  then show ?thesis
    by (auto simp: lsys_inv_def locked_def release_def)
qed

theorem lock_mutual_exclusion_witness:
  "tasks (lrun [Acquire 0, Acquire 1, Release 0, Resume 1] lsys_init) 1 = Holding \<and>
   locked (lrun [Acquire 0, Acquire 1, Release 0, Resume 1] lsys_init) \<and>
   \<not> locked lock_init \<and>
   release lock_init = Inl (RuntimeError ''Lock is not acquired.'')"
proof -
  have h: "tasks (lrun [Acquire 0, Acquire 1, Release 0, Resume 1] lsys_init) 1 = Holding"
    by (simp add: lrun_def lsys_init_def acquire_begin_def create_future_def release_def
        wake_up_first_def acquire_resume_def await_outcome_def fut_done_def)
  have u: "\<not> locked lock_init"
    by (simp add: locked_def lock_init_def)
  from h u lock_mutual_exclusion [of "[Acquire 0, Acquire 1, Release 0, Resume 1]" lock_init]
  show ?thesis by blast
qed

subsection \<open>What release wakes\<close>

text \<open>
  Claim C3, as the code has it. On a locked lock \<^verbatim>\<open>release()\<close> clears \<^verbatim>\<open>locked\<close>, leaves
  the deque as it is, and gives a result to the head of the deque when that future is
  still pending; it changes no future when the head is already done (it has a result
  or is cancelled), when the deque is empty, or when there is none.
\<close>

theorem release_wakes_head_only:
  "lock_locked s \<Longrightarrow>
   release s = Inr (s\<lparr>lock_locked := False,
                      futs := (case lock_waiters s of
                                 Some (f # _) \<Rightarrow>
                                   if futs s f = Pending then (futs s)(f := Result) else futs s
                               | _ \<Rightarrow> futs s)\<rparr>)"
  by (simp add: release_def wake_up_first_def fut_done_def split: option.splits list.splits)

theorem release_wakes_head_only_witness:
  "lock_locked (lrun [Acquire 0, Acquire 1] lsys_init) \<and>
   lock_waiters (lrun [Acquire 0, Acquire 1] lsys_init) = Some [0] \<and>
   futs (lrun [Acquire 0, Acquire 1] lsys_init) 0 = Pending \<and>
   futs (projr (release (lrun [Acquire 0, Acquire 1] lsys_init))) 0 = Result"
proof -
  have h: "lock_locked (lrun [Acquire 0, Acquire 1] lsys_init)"
    by (simp add: lrun_def lsys_init_def acquire_begin_def create_future_def)
  have w: "lock_waiters (lrun [Acquire 0, Acquire 1] lsys_init) = Some [0]"
    "futs (lrun [Acquire 0, Acquire 1] lsys_init) 0 = Pending"
    by (simp_all add: lrun_def lsys_init_def acquire_begin_def create_future_def)
  show ?thesis using h w release_wakes_head_only [OF h] by simp
qed

text \<open>
  The claim as it is written fails: task 0 holds the lock, tasks 1 and 2 wait on the
  futures 0 and 1, and task 1 is cancelled but has not run yet. The first pending
  future of the deque is future 1, but the head is the cancelled future 0, so
  \<^verbatim>\<open>release()\<close> wakes nobody.
\<close>

theorem release_first_pending_counterexample:
  "lock_locked (lrun [Acquire 0, Acquire 1, Acquire 2, Cancel 1] lsys_init) \<and>
   lock_waiters (lrun [Acquire 0, Acquire 1, Acquire 2, Cancel 1] lsys_init) = Some [0, 1] \<and>
   futs (lrun [Acquire 0, Acquire 1, Acquire 2, Cancel 1] lsys_init) 0 = Cancelled \<and>
   futs (lrun [Acquire 0, Acquire 1, Acquire 2, Cancel 1] lsys_init) 1 = Pending \<and>
   \<not> isl (release (lrun [Acquire 0, Acquire 1, Acquire 2, Cancel 1] lsys_init)) \<and>
   futs (projr (release (lrun [Acquire 0, Acquire 1, Acquire 2, Cancel 1] lsys_init))) 0
     = Cancelled \<and>
   futs (projr (release (lrun [Acquire 0, Acquire 1, Acquire 2, Cancel 1] lsys_init))) 1
     = Pending"
  by (simp add: lrun_def lsys_init_def acquire_begin_def create_future_def release_def
      wake_up_first_def fut_done_def fut_cancelled_def)

section \<open>Semaphore\<close>

text \<open>
  What a coroutine has done when it stops running: returned a value, raised an
  exception, suspended on a future, or suspended in \<^verbatim>\<open>sleep(0)\<close> until the next
  iteration of the loop.
\<close>

datatype 'a progress = Returned 'a | Raised exn | Awaiting nat | Sleeping

record semaphore = loop +
  sem_value :: int
  sem_waiters :: "nat list"

definition semaphore_init :: "int \<Rightarrow> exn + semaphore" where
  "semaphore_init v =
     (if v < 0 then Inl (ValueError ''Semaphore initial value must be >= 0'')
      else Inr \<lparr>futs = (\<lambda>_. Pending), nfut = 0, sem_value = v, sem_waiters = []\<rparr>)"

text \<open>
  \<^verbatim>\<open>Semaphore._wake_up_next\<close>: pop futures from the left of the deque until one that
  is not done is found; that one gets a result.
\<close>

fun wake_up_next_loop :: "(nat \<Rightarrow> fut) \<Rightarrow> nat list \<Rightarrow> (nat \<Rightarrow> fut) \<times> nat list" where
  "wake_up_next_loop h [] = (h, [])"
| "wake_up_next_loop h (waiter # ws) =
     (if \<not> fut_done (h waiter) then (h(waiter := Result), ws) else wake_up_next_loop h ws)"

definition wake_up_next :: "'a semaphore_scheme \<Rightarrow> 'a semaphore_scheme" where
  "wake_up_next s =
     (case wake_up_next_loop (futs s) (sem_waiters s) of
        (h, ws) \<Rightarrow> s\<lparr>futs := h, sem_waiters := ws\<rparr>)"

definition sem_locked :: "'a semaphore_scheme \<Rightarrow> bool" where
  "sem_locked s = (sem_value s = 0)"

text \<open>
  \<^verbatim>\<open>Semaphore.acquire\<close> from the loop test \<^verbatim>\<open>while self._value <= 0\<close> to the next
  suspension or the return.
\<close>

definition sem_acquire_begin :: "'a semaphore_scheme \<Rightarrow> bool progress \<times> 'a semaphore_scheme" where
  "sem_acquire_begin s =
     (if sem_value s \<le> 0 then
        let (fut, s1) = create_future s
        in (Awaiting fut, s1\<lparr>sem_waiters := sem_waiters s1 @ [fut]\<rparr>)
      else (Returned True, s\<lparr>sem_value := sem_value s - 1\<rparr>))"

text \<open>
  \<^verbatim>\<open>Semaphore.acquire\<close> from the point where \<^verbatim>\<open>await fut\<close> finishes. When the await
  raised, the bare \<^verbatim>\<open>except\<close> clause cancels the future, forwards the wakeup if
  \<^verbatim>\<open>self._value > 0 and not fut.cancelled()\<close>, and raises again; otherwise the loop
  test is made again.
\<close>

definition sem_acquire_resume ::
  "nat \<Rightarrow> exn option \<Rightarrow> 'a semaphore_scheme \<Rightarrow> bool progress \<times> 'a semaphore_scheme" where
  "sem_acquire_resume fut exc s =
     (case exc of
        Some e \<Rightarrow>
          let s1 = s\<lparr>futs := (futs s)(fut := fut_cancel (futs s fut))\<rparr> in
          (Raised e,
           if sem_value s1 > 0 \<and> \<not> fut_cancelled (futs s1 fut) then wake_up_next s1 else s1)
      | None \<Rightarrow> sem_acquire_begin s)"

definition sem_release :: "'a semaphore_scheme \<Rightarrow> 'a semaphore_scheme" where
  "sem_release s = wake_up_next (s\<lparr>sem_value := sem_value s + 1\<rparr>)"

subsection \<open>BoundedSemaphore\<close>

record bounded_semaphore = semaphore +
  bound_value :: int

definition bounded_semaphore_init :: "int \<Rightarrow> exn + bounded_semaphore" where
  "bounded_semaphore_init v =
     (if v < 0 then Inl (ValueError ''Semaphore initial value must be >= 0'')
      else Inr \<lparr>futs = (\<lambda>_. Pending), nfut = 0, sem_value = v, sem_waiters = [],
                bound_value = v\<rparr>)"

definition bounded_release :: "'a bounded_semaphore_scheme \<Rightarrow> exn + 'a bounded_semaphore_scheme" where
  "bounded_release s =
     (if sem_value s \<ge> bound_value s
      then Inl (ValueError ''BoundedSemaphore released too many times'')
      else Inr (sem_release s))"

subsection \<open>Tasks using a bounded semaphore\<close>

text \<open>
  A task is outside \<^verbatim>\<open>acquire\<close> or suspended in it on its future (with the flag of a
  cancellation that came after the future was done). Any task may call
  \<^verbatim>\<open>release()\<close> at any time; a release that raises leaves the semaphore as it was.
\<close>

datatype stask = SIdle | SWaiting nat bool

datatype sevent = SAcquire nat | SRelease | SResume nat | SCancel nat

record ssys = bounded_semaphore +
  stasks :: "nat \<Rightarrow> stask"

definition ssys_init :: "int \<Rightarrow> exn + ssys" where
  "ssys_init v =
     (if v < 0 then Inl (ValueError ''Semaphore initial value must be >= 0'')
      else Inr \<lparr>futs = (\<lambda>_. Pending), nfut = 0, sem_value = v, sem_waiters = [],
                bound_value = v, stasks = (\<lambda>_. SIdle)\<rparr>)"

definition stask_of :: "bool progress \<Rightarrow> stask" where
  "stask_of p = (case p of Awaiting fut \<Rightarrow> SWaiting fut False | _ \<Rightarrow> SIdle)"

fun sstep :: "sevent \<Rightarrow> ssys \<Rightarrow> ssys" where
  "sstep (SAcquire t) s =
     (case stasks s t of
        SIdle \<Rightarrow>
          (case sem_acquire_begin s of (p, s1) \<Rightarrow> s1\<lparr>stasks := (stasks s1)(t := stask_of p)\<rparr>)
      | _ \<Rightarrow> s)"
| "sstep SRelease s = (case bounded_release s of Inl _ \<Rightarrow> s | Inr s1 \<Rightarrow> s1)"
| "sstep (SResume t) s =
     (case stasks s t of
        SWaiting fut must_cancel \<Rightarrow>
          if \<not> fut_done (futs s fut) then s
          else
            (case sem_acquire_resume fut (await_outcome must_cancel (futs s fut)) s of
               (p, s1) \<Rightarrow> s1\<lparr>stasks := (stasks s1)(t := stask_of p)\<rparr>)
      | _ \<Rightarrow> s)"
| "sstep (SCancel t) s =
     (case stasks s t of
        SWaiting fut must_cancel \<Rightarrow>
          if fut_done (futs s fut) then s\<lparr>stasks := (stasks s)(t := SWaiting fut True)\<rparr>
          else s\<lparr>futs := (futs s)(fut := Cancelled)\<rparr>
      | _ \<Rightarrow> s)"

definition srun :: "sevent list \<Rightarrow> ssys \<Rightarrow> ssys" where
  "srun evs s = fold sstep evs s"

lemma wake_up_next_value [simp]:
  "sem_value (wake_up_next s) = sem_value s"
  by (simp add: wake_up_next_def split: prod.splits)

lemma wake_up_next_bound [simp]:
  "bound_value (wake_up_next s) = bound_value s"
  by (simp add: wake_up_next_def split: prod.splits)

lemma sem_acquire_begin_value:
  "sem_acquire_begin s = (p, s') \<Longrightarrow> sem_value s' \<le> sem_value s \<and> bound_value s' = bound_value s"
  by (auto simp: sem_acquire_begin_def create_future_def split: if_splits)

lemma sem_acquire_resume_value:
  "sem_acquire_resume fut exc s = (p, s') \<Longrightarrow>
   sem_value s' \<le> sem_value s \<and> bound_value s' = bound_value s"
  by (cases exc) (auto simp: sem_acquire_resume_def Let_def dest: sem_acquire_begin_value split: if_splits)

lemma sstep_bound:
  assumes "sem_value s \<le> bound_value s"
  shows "sem_value (sstep e s) \<le> bound_value (sstep e s) \<and>
         bound_value (sstep e s) = bound_value s"
proof (cases e)
  case (SAcquire t)
  with assms show ?thesis
    by (cases "sem_acquire_begin s")
       (auto split: stask.splits dest!: sem_acquire_begin_value)
next
  case SRelease
  with assms show ?thesis
    by (auto simp: bounded_release_def sem_release_def)
next
  case (SResume t)
  with assms show ?thesis
    by (auto split: stask.splits prod.splits dest!: sem_acquire_resume_value)
next
  case (SCancel t)
  with assms show ?thesis by (auto split: stask.splits)
qed

lemma srun_bound:
  "sem_value s \<le> bound_value s \<Longrightarrow>
   sem_value (srun evs s) \<le> bound_value (srun evs s) \<and> bound_value (srun evs s) = bound_value s"
  unfolding srun_def
proof (induction evs arbitrary: s)
  case Nil
  then show ?case by simp
next
  case (Cons e evs)
  from sstep_bound[OF Cons.prems, of e]
  have a: "sem_value (sstep e s) \<le> bound_value (sstep e s)"
    and b: "bound_value (sstep e s) = bound_value s" by auto
  from Cons.IH[OF a] b show ?case by simp
qed

text \<open>
  Claim C5. A \<^verbatim>\<open>BoundedSemaphore\<close> constructed with the initial value \<open>k\<close> keeps
  \<^verbatim>\<open>_value <= _bound_value\<close> and \<^verbatim>\<open>_bound_value = k\<close> after every sequence of acquires,
  resumptions, cancellations and releases; and in every state with
  \<^verbatim>\<open>_value >= _bound_value\<close>, \<^verbatim>\<open>release()\<close> raises the \<^verbatim>\<open>ValueError\<close> before it
  increments, so that the semaphore is left as it was.
\<close>

theorem bounded_semaphore_invariant:
  "ssys_init k = Inr s0 \<Longrightarrow>
   sem_value (srun evs s0) \<le> bound_value (srun evs s0) \<and>
   bound_value (srun evs s0) = k \<and>
   (sem_value (s :: ssys) \<ge> bound_value s \<longrightarrow>
      bounded_release s = Inl (ValueError ''BoundedSemaphore released too many times'') \<and>
      sstep SRelease s = s)"
proof -
  assume i: "ssys_init k = Inr s0"
  then have "sem_value s0 \<le> bound_value s0" and "bound_value s0 = k"
    by (auto simp: ssys_init_def split: if_splits)
  with srun_bound[of s0 evs] show ?thesis
    by (auto simp: bounded_release_def)
qed


lemma wake_up_next_loop_eq:
  "wake_up_next_loop h ws =
     (case dropWhile (\<lambda>w. fut_done (h w)) ws of
        [] \<Rightarrow> (h, [])
      | w # rest \<Rightarrow> (h(w := Result), rest))"
  by (induction ws) simp_all

text \<open>
  Claim C2, as the code has it. When the await of \<^verbatim>\<open>Semaphore.acquire\<close> raises
  \<^verbatim>\<open>CancelledError\<close>: if \<^verbatim>\<open>_value > 0\<close> and the waiter's future already had its result
  when the cancellation came, the futures at the front of the deque that are done are
  dropped, the first one that is not done gets a result and is popped, and then the
  cancellation propagates; if the future had no result (it was pending or cancelled),
  it ends cancelled and nothing else changes: no other waiter is woken.
\<close>

theorem sem_cancel_forwards_resolved:
  "(0 < sem_value s \<and> futs s fut = Result \<longrightarrow>
      sem_acquire_resume fut (Some CancelledError) s =
        (Raised CancelledError,
         case dropWhile (\<lambda>w. fut_done (futs s w)) (sem_waiters s) of
           [] \<Rightarrow> s\<lparr>sem_waiters := []\<rparr>
         | w # rest \<Rightarrow> s\<lparr>futs := (futs s)(w := Result), sem_waiters := rest\<rparr>)) \<and>
   (futs s2 fut2 \<in> {Pending, Cancelled} \<longrightarrow>
      sem_acquire_resume fut2 (Some CancelledError) s2 =
        (Raised CancelledError, s2\<lparr>futs := (futs s2)(fut2 := Cancelled)\<rparr>))"
proof (intro conjI impI)
  assume a: "0 < sem_value s \<and> futs s fut = Result"
  then have "(futs s)(fut := fut_cancel (futs s fut)) = futs s"
    by (simp add: fut_cancel_def fut_done_def fun_upd_idem)
  then have "s\<lparr>futs := (futs s)(fut := fut_cancel (futs s fut))\<rparr> = s"
    by simp
  with a have r: "sem_acquire_resume fut (Some CancelledError) s =
      (Raised CancelledError, wake_up_next s)"
    by (simp add: sem_acquire_resume_def fut_cancelled_def)
  have "wake_up_next s =
      (case dropWhile (\<lambda>w. fut_done (futs s w)) (sem_waiters s) of
           [] \<Rightarrow> s\<lparr>sem_waiters := []\<rparr>
         | w # rest \<Rightarrow> s\<lparr>futs := (futs s)(w := Result), sem_waiters := rest\<rparr>)"
  proof (cases "dropWhile (\<lambda>w. fut_done (futs s w)) (sem_waiters s)")
    case Nil
    show ?thesis unfolding wake_up_next_def wake_up_next_loop_eq Nil by simp
  next
    case (Cons w rest)
    show ?thesis unfolding wake_up_next_def wake_up_next_loop_eq Cons by simp
  qed
  with r show "sem_acquire_resume fut (Some CancelledError) s =
        (Raised CancelledError,
         case dropWhile (\<lambda>w. fut_done (futs s w)) (sem_waiters s) of
           [] \<Rightarrow> s\<lparr>sem_waiters := []\<rparr>
         | w # rest \<Rightarrow> s\<lparr>futs := (futs s)(w := Result), sem_waiters := rest\<rparr>)"
    by simp
next
  assume "futs s2 fut2 \<in> {Pending, Cancelled}"
  then have "fut_cancel (futs s2 fut2) = Cancelled"
    by (auto simp: fut_cancel_def fut_done_def)
  then show "sem_acquire_resume fut2 (Some CancelledError) s2 =
        (Raised CancelledError, s2\<lparr>futs := (futs s2)(fut2 := Cancelled)\<rparr>)"
    by (simp add: sem_acquire_resume_def fut_cancelled_def)
qed

definition sem_demo :: "sevent list \<Rightarrow> ssys" where
  "sem_demo evs = srun evs (projr (ssys_init 1))"

lemmas sem_eval =
  sem_demo_def srun_def ssys_init_def sem_acquire_begin_def sem_acquire_resume_def
  create_future_def bounded_release_def sem_release_def wake_up_next_def stask_of_def
  await_outcome_def fut_done_def fut_cancel_def fut_cancelled_def

theorem sem_cancel_forwards_resolved_witness:
  "0 < sem_value (sem_demo [SAcquire 0, SAcquire 1, SAcquire 2, SAcquire 3, SRelease]) \<and>
   futs (sem_demo [SAcquire 0, SAcquire 1, SAcquire 2, SAcquire 3, SRelease]) 0 = Result \<and>
   sem_waiters (sem_demo [SAcquire 0, SAcquire 1, SAcquire 2, SAcquire 3, SRelease]) = [1, 2] \<and>
   futs (sem_demo [SAcquire 0, SAcquire 1, SAcquire 2, SAcquire 3, SRelease]) 1 = Pending \<and>
   futs (snd (sem_acquire_resume 0 (Some CancelledError)
          (sem_demo [SAcquire 0, SAcquire 1, SAcquire 2, SAcquire 3, SRelease]))) 1 = Result \<and>
   sem_waiters (snd (sem_acquire_resume 0 (Some CancelledError)
          (sem_demo [SAcquire 0, SAcquire 1, SAcquire 2, SAcquire 3, SRelease]))) = [2] \<and>
   futs (snd (sem_acquire_resume 1 (Some CancelledError)
          (sem_demo [SAcquire 0, SAcquire 1, SAcquire 2, SAcquire 3, SRelease]))) 2 = Pending \<and>
   sem_waiters (snd (sem_acquire_resume 1 (Some CancelledError)
          (sem_demo [SAcquire 0, SAcquire 1, SAcquire 2, SAcquire 3, SRelease]))) = [1, 2]"
proof -
  let ?s = "sem_demo [SAcquire 0, SAcquire 1, SAcquire 2, SAcquire 3, SRelease]"
  have h: "0 < sem_value ?s \<and> futs ?s 0 = Result"
    by (simp add: sem_eval)
  have w: "sem_waiters ?s = [1, 2]" "futs ?s 1 = Pending" "futs ?s 2 = Pending"
    by (simp_all add: sem_eval)
  from w(2) have h2: "futs ?s 1 \<in> {Pending, Cancelled}" by simp
  note t = sem_cancel_forwards_resolved [where s = ?s and fut = 0 and ?s2.0 = ?s and ?fut2.0 = 1]
  from t h
  have a: "sem_acquire_resume 0 (Some CancelledError) ?s =
        (Raised CancelledError,
         case dropWhile (\<lambda>w. fut_done (futs ?s w)) (sem_waiters ?s) of
           [] \<Rightarrow> ?s\<lparr>sem_waiters := []\<rparr>
         | w # rest \<Rightarrow> ?s\<lparr>futs := (futs ?s)(w := Result), sem_waiters := rest\<rparr>)"
    by blast
  from t h2
  have b: "sem_acquire_resume 1 (Some CancelledError) ?s =
        (Raised CancelledError, ?s\<lparr>futs := (futs ?s)(1 := Cancelled)\<rparr>)"
    by blast
  from a h w have a': "futs (snd (sem_acquire_resume 0 (Some CancelledError) ?s)) 1 = Result"
    "sem_waiters (snd (sem_acquire_resume 0 (Some CancelledError) ?s)) = [2]"
    by (simp_all add: fut_done_def)
  from b w have b': "futs (snd (sem_acquire_resume 1 (Some CancelledError) ?s)) 2 = Pending"
    "sem_waiters (snd (sem_acquire_resume 1 (Some CancelledError) ?s)) = [1, 2]"
    by simp_all
  from h w a' b' show ?thesis by simp
qed

text \<open>
  The claim as it is written fails. A \<^verbatim>\<open>BoundedSemaphore(1)\<close> is taken by task 0; tasks
  1, 2 and 3 wait on the futures 0, 1 and 2; a release gives future 0 its result and
  makes the value 1; then task 2 is cancelled while its future 1 is pending. When
  task 2 runs, the value is positive and its future was not resolved before the
  cancellation, but the next waiter, future 2, is not woken: the release belongs to
  task 1.
\<close>

theorem sem_cancel_unresolved_counterexample:
  "futs (sem_demo [SAcquire 0, SAcquire 1, SAcquire 2, SAcquire 3, SRelease]) 1 = Pending \<and>
   stasks (sem_demo [SAcquire 0, SAcquire 1, SAcquire 2, SAcquire 3, SRelease, SCancel 2]) 2
     = SWaiting 1 False \<and>
   0 < sem_value (sem_demo [SAcquire 0, SAcquire 1, SAcquire 2, SAcquire 3, SRelease, SCancel 2]) \<and>
   sem_waiters (sem_demo [SAcquire 0, SAcquire 1, SAcquire 2, SAcquire 3, SRelease, SCancel 2])
     = [1, 2] \<and>
   futs (sem_demo [SAcquire 0, SAcquire 1, SAcquire 2, SAcquire 3, SRelease, SCancel 2]) 2
     = Pending \<and>
   stasks (sem_demo [SAcquire 0, SAcquire 1, SAcquire 2, SAcquire 3, SRelease, SCancel 2,
                     SResume 2]) 2 = SIdle \<and>
   futs (sem_demo [SAcquire 0, SAcquire 1, SAcquire 2, SAcquire 3, SRelease, SCancel 2,
                   SResume 2]) 2 = Pending"
  by (simp add: sem_eval)

theorem bounded_semaphore_invariant_witness:
  "ssys_init 1 = Inr (sem_demo []) \<and>
   sem_value (srun [SAcquire 0, SRelease, SRelease] (sem_demo [])) \<le> 1 \<and>
   bound_value (srun [SAcquire 0, SRelease, SRelease] (sem_demo [])) = 1 \<and>
   sem_value (sem_demo []) \<ge> bound_value (sem_demo []) \<and>
   bounded_release (sem_demo []) = Inl (ValueError ''BoundedSemaphore released too many times'')"
proof -
  have i: "ssys_init 1 = Inr (sem_demo [])"
    by (simp add: sem_demo_def srun_def ssys_init_def)
  have v: "sem_value (sem_demo []) \<ge> bound_value (sem_demo [])"
    by (simp add: sem_demo_def srun_def ssys_init_def)
  from bounded_semaphore_invariant [OF i, of "[SAcquire 0, SRelease, SRelease]" "sem_demo []"] i v
  show ?thesis by simp
qed

section \<open>Streams\<close>

text \<open>
  One connection has one transport. The model keeps what the stream code reads from
  it (whether \<^verbatim>\<open>pause_reading\<close> is implemented, whether it is closing) and the calls
  the stream makes on it, in order.
\<close>

datatype tcall = PauseReading | ResumeReading | TWrite bytes

record stream = loop +
  st_readable :: bool
  st_writable :: bool
  st_has_transport :: bool
  st_limit :: int
  st_buffer :: bytes
  st_eof :: bool
  st_waiter :: "nat option"
  st_exception :: "exn option"
  st_paused :: bool
  st_complete_fut :: nat
  tr_can_pause :: bool
  tr_closing :: bool
  tr_calls :: "tcall list"

definition DEFAULT_LIMIT :: int where
  "DEFAULT_LIMIT = 2 ^ 16"

text \<open>
  \<^verbatim>\<open>Stream.__init__\<close> for a stream in mode \<open>(readable, writable)\<close>, with or without a
  transport; \<open>can_pause\<close> says whether the transport implements \<^verbatim>\<open>pause_reading\<close>.
  The first future of the loop is \<^verbatim>\<open>_complete_fut\<close>, completed at once.
\<close>

definition stream_init :: "bool \<Rightarrow> bool \<Rightarrow> bool \<Rightarrow> bool \<Rightarrow> int \<Rightarrow> exn + stream" where
  "stream_init readable writable has_transport can_pause limit =
     (if limit \<le> 0 then Inl (ValueError ''Limit cannot be <= 0'')
      else Inr \<lparr>futs = (\<lambda>_. Pending)(0 := Result), nfut = 1,
                st_readable = readable, st_writable = writable,
                st_has_transport = has_transport, st_limit = limit, st_buffer = [],
                st_eof = False, st_waiter = None, st_exception = None, st_paused = False,
                st_complete_fut = 0,
                tr_can_pause = can_pause, tr_closing = False, tr_calls = []\<rparr>)"

definition check_read :: "'a stream_scheme \<Rightarrow> exn option" where
  "check_read s = (if \<not> st_readable s then Some (RuntimeError ''The stream is write-only'') else None)"

definition check_write :: "'a stream_scheme \<Rightarrow> exn option" where
  "check_write s = (if \<not> st_writable s then Some (RuntimeError ''The stream is read-only'') else None)"

text \<open>
  \<^verbatim>\<open>Stream._wakeup_waiter\<close> and \<^verbatim>\<open>Stream.set_exception\<close>. The slot \<^verbatim>\<open>_waiter\<close> only ever
  holds a future that is pending or cancelled: whoever completes it empties the slot.
\<close>

definition wakeup_waiter :: "'a stream_scheme \<Rightarrow> 'a stream_scheme" where
  "wakeup_waiter s =
     (case st_waiter s of
        None \<Rightarrow> s
      | Some waiter \<Rightarrow>
          let s1 = s\<lparr>st_waiter := None\<rparr> in
          if \<not> fut_cancelled (futs s1 waiter) then s1\<lparr>futs := (futs s1)(waiter := Result)\<rparr>
          else s1)"

definition set_exception :: "exn \<Rightarrow> 'a stream_scheme \<Rightarrow> 'a stream_scheme" where
  "set_exception exc s =
     (let s0 = s\<lparr>st_exception := Some exc\<rparr> in
      (case st_waiter s0 of
         None \<Rightarrow> s0
       | Some waiter \<Rightarrow>
           let s1 = s0\<lparr>st_waiter := None\<rparr> in
           if \<not> fut_cancelled (futs s1 waiter) then s1\<lparr>futs := (futs s1)(waiter := Failed exc)\<rparr>
           else s1))"

text \<open>
  \<^verbatim>\<open>self._transport.resume_reading()\<close>; there is nothing to call it on when the stream
  has forgotten its transport.
\<close>

definition resume_reading :: "'a stream_scheme \<Rightarrow> exn + 'a stream_scheme" where
  "resume_reading s =
     (if st_has_transport s then Inr (s\<lparr>tr_calls := tr_calls s @ [ResumeReading]\<rparr>)
      else Inl AttributeError)"

definition maybe_resume_transport :: "'a stream_scheme \<Rightarrow> exn + 'a stream_scheme" where
  "maybe_resume_transport s =
     (if st_paused s \<and> int (length (st_buffer s)) \<le> st_limit s
      then resume_reading (s\<lparr>st_paused := False\<rparr>)
      else Inr s)"

definition feed_eof :: "'a stream_scheme \<Rightarrow> exn + 'a stream_scheme" where
  "feed_eof s =
     (case check_read s of
        Some e \<Rightarrow> Inl e
      | None \<Rightarrow> Inr (wakeup_waiter (s\<lparr>st_eof := True\<rparr>)))"

definition feed_data :: "bytes \<Rightarrow> 'a stream_scheme \<Rightarrow> exn + 'a stream_scheme" where
  "feed_data data s =
     (case check_read s of
        Some e \<Rightarrow> Inl e
      | None \<Rightarrow>
          if st_eof s then Inl AssertionError
          else if data = [] then Inr s
          else
            let s1 = wakeup_waiter (s\<lparr>st_buffer := st_buffer s @ data\<rparr>) in
            if st_has_transport s1 \<and> \<not> st_paused s1 \<and>
               int (length (st_buffer s1)) > 2 * st_limit s1
            then
              (if tr_can_pause s1
               then Inr (s1\<lparr>tr_calls := tr_calls s1 @ [PauseReading], st_paused := True\<rparr>)
               else Inr (s1\<lparr>tr_calls := tr_calls s1 @ [PauseReading],
                              st_has_transport := False\<rparr>))
            else Inr s1)"

text \<open>
  \<^verbatim>\<open>Stream._wait_for_data\<close> up to its await: the future the reader suspends on, or the
  exception raised before, and the stream as the method leaves it (when
  \<^verbatim>\<open>resume_reading\<close> cannot be called, \<^verbatim>\<open>_paused\<close> has already been cleared).
\<close>

definition wait_for_data ::
  "string \<Rightarrow> 'a stream_scheme \<Rightarrow> (exn + nat) \<times> 'a stream_scheme" where
  "wait_for_data func_name s =
     (if st_waiter s \<noteq> None
      then (Inl (RuntimeError (func_name @
              ''() called while another coroutine is already waiting for incoming data'')), s)
      else if st_eof s then (Inl AssertionError, s)
      else
        (case (if st_paused s then resume_reading (s\<lparr>st_paused := False\<rparr>) else Inr s) of
           Inl e \<Rightarrow> (Inl e, s\<lparr>st_paused := False\<rparr>)
         | Inr s1 \<Rightarrow>
             let (w, s2) = create_future s1 in (Inr w, s2\<lparr>st_waiter := Some w\<rparr>)))"

subsection \<open>What the protocol feeds while a reader is suspended\<close>

text \<open>
  Between the suspension of a reader and the moment it runs again, the protocol calls
  \<^verbatim>\<open>feed_data\<close>, \<^verbatim>\<open>feed_eof\<close> or \<^verbatim>\<open>set_exception\<close> any number of times: a batch. An
  exception raised by such a call goes to the protocol's caller, and the stream stays
  as it was. A suspended reader runs again after the first batch that completed its
  future; with no batch left it stays suspended.
\<close>

datatype feed = FeedData bytes | FeedEof | SetException exn

fun apply_feed :: "feed \<Rightarrow> 'a stream_scheme \<Rightarrow> 'a stream_scheme" where
  "apply_feed (FeedData d) s = (case feed_data d s of Inl _ \<Rightarrow> s | Inr s1 \<Rightarrow> s1)"
| "apply_feed FeedEof s = (case feed_eof s of Inl _ \<Rightarrow> s | Inr s1 \<Rightarrow> s1)"
| "apply_feed (SetException e) s = set_exception e s"

definition apply_batch :: "feed list \<Rightarrow> 'a stream_scheme \<Rightarrow> 'a stream_scheme" where
  "apply_batch b s = fold apply_feed b s"

subsection \<open>readuntil\<close>

text \<open>\<^verbatim>\<open>bytes.find(sub, start)\<close> for \<open>start \<ge> 0\<close>: the lowest index or \<open>-1\<close>.\<close>

fun find_from :: "bytes \<Rightarrow> bytes \<Rightarrow> nat \<Rightarrow> int" where
  "find_from sub [] i = (if sub = [] then int i else - 1)"
| "find_from sub (x # xs) i =
     (if take (length sub) (x # xs) = sub then int i else find_from sub xs (Suc i))"

definition bytes_find :: "bytes \<Rightarrow> bytes \<Rightarrow> int \<Rightarrow> int" where
  "bytes_find buf sub start = find_from sub (drop (nat start) buf) (nat start)"

text \<open>
  One pass of the loop of \<^verbatim>\<open>readuntil\<close> up to the EOF test: the separator is found
  at an index, or the limit is overrun, or the pass ends with a new offset.
\<close>

datatype scan = Found int | Overrun int | NotFound int

definition readuntil_scan :: "bytes \<Rightarrow> int \<Rightarrow> 'a stream_scheme \<Rightarrow> scan" where
  "readuntil_scan separator offset s =
     (let seplen = int (length separator);
          buflen = int (length (st_buffer s))
      in if buflen - offset \<ge> seplen then
           let isep = bytes_find (st_buffer s) separator offset in
           if isep \<noteq> - 1 then Found isep
           else
             let offset1 = buflen + 1 - seplen in
             if offset1 > st_limit s then Overrun offset1 else NotFound offset1
         else NotFound offset)"

text \<open>The part of \<^verbatim>\<open>readuntil\<close> after the loop.\<close>

definition readuntil_finish ::
  "bytes \<Rightarrow> int \<Rightarrow> 'a stream_scheme \<Rightarrow> bytes progress \<times> 'a stream_scheme" where
  "readuntil_finish separator isep s =
     (if isep > st_limit s
      then (Raised (LimitOverrunError
              ''Separator is found, but chunk is longer than limit'' isep), s)
      else
        let k = nat (isep + int (length separator));
            chunk = take k (st_buffer s);
            s1 = s\<lparr>st_buffer := drop k (st_buffer s)\<rparr>
        in (case maybe_resume_transport s1 of
              Inl e \<Rightarrow> (Raised e, s1\<lparr>st_paused := False\<rparr>)
            | Inr s2 \<Rightarrow> (Returned chunk, s2)))"

text \<open>
  The loop of \<^verbatim>\<open>readuntil\<close>. With \<open>Some w\<close> the coroutine is suspended in
  \<^verbatim>\<open>_wait_for_data\<close> on the future \<open>w\<close>; with \<open>None\<close> it is at the head of the loop.
\<close>

function readuntil_loop ::
  "bytes \<Rightarrow> int \<Rightarrow> nat option \<Rightarrow> feed list list \<Rightarrow> 'a stream_scheme
   \<Rightarrow> bytes progress \<times> 'a stream_scheme" where
  "readuntil_loop separator offset (Some w) [] s = (Awaiting w, s)"
| "readuntil_loop separator offset (Some w) (b # env) s =
     (let s1 = apply_batch b s in
      if \<not> fut_done (futs s1 w) then readuntil_loop separator offset (Some w) env s1
      else
        let s2 = s1\<lparr>st_waiter := None\<rparr> in
        (case await_outcome False (futs s1 w) of
           Some e \<Rightarrow> (Raised e, s2)
         | None \<Rightarrow> readuntil_loop separator offset None env s2))"
| "readuntil_loop separator offset None env s =
     (case readuntil_scan separator offset s of
        Found isep \<Rightarrow> readuntil_finish separator isep s
      | Overrun offset1 \<Rightarrow>
          (Raised (LimitOverrunError
             ''Separator is not found, and chunk exceed the limit'' offset1), s)
      | NotFound offset1 \<Rightarrow>
          if st_eof s
          then (Raised (IncompleteReadError (st_buffer s) None), s\<lparr>st_buffer := []\<rparr>)
          else
            (case wait_for_data ''readuntil'' s of
               (Inl e, s1) \<Rightarrow> (Raised e, s1)
             | (Inr w, s1) \<Rightarrow> readuntil_loop separator offset1 (Some w) env s1))"
  by pat_completeness auto
termination
  by (relation "measure (\<lambda>(separator, offset, w, env, s).
        2 * length env + (case w of None \<Rightarrow> 1 | Some _ \<Rightarrow> 0))") auto

definition readuntil ::
  "bytes \<Rightarrow> feed list list \<Rightarrow> 'a stream_scheme \<Rightarrow> bytes progress \<times> 'a stream_scheme" where
  "readuntil separator env s =
     (case check_read s of
        Some e \<Rightarrow> (Raised e, s)
      | None \<Rightarrow>
          if length separator = 0
          then (Raised (ValueError ''Separator should be at least one-byte string''), s)
          else
            (case st_exception s of
               Some e \<Rightarrow> (Raised e, s)
             | None \<Rightarrow> readuntil_loop separator 0 None env s))"

subsection \<open>readexactly\<close>

definition readexactly_finish ::
  "int \<Rightarrow> 'a stream_scheme \<Rightarrow> bytes progress \<times> 'a stream_scheme" where
  "readexactly_finish n s =
     (let (data, s1) =
            (if int (length (st_buffer s)) = n then (st_buffer s, s\<lparr>st_buffer := []\<rparr>)
             else (take (nat n) (st_buffer s),
                   s\<lparr>st_buffer := drop (nat n) (st_buffer s)\<rparr>))
      in (case maybe_resume_transport s1 of
            Inl e \<Rightarrow> (Raised e, s1\<lparr>st_paused := False\<rparr>)
          | Inr s2 \<Rightarrow> (Returned data, s2)))"

text \<open>
  The loop \<^verbatim>\<open>while len(self._buffer) < n\<close> of \<^verbatim>\<open>readexactly\<close>, suspended on \<open>w\<close> or at
  its head.
\<close>

function readexactly_loop ::
  "int \<Rightarrow> nat option \<Rightarrow> feed list list \<Rightarrow> 'a stream_scheme
   \<Rightarrow> bytes progress \<times> 'a stream_scheme" where
  "readexactly_loop n (Some w) [] s = (Awaiting w, s)"
| "readexactly_loop n (Some w) (b # env) s =
     (let s1 = apply_batch b s in
      if \<not> fut_done (futs s1 w) then readexactly_loop n (Some w) env s1
      else
        let s2 = s1\<lparr>st_waiter := None\<rparr> in
        (case await_outcome False (futs s1 w) of
           Some e \<Rightarrow> (Raised e, s2)
         | None \<Rightarrow> readexactly_loop n None env s2))"
| "readexactly_loop n None env s =
     (if int (length (st_buffer s)) < n then
        if st_eof s
        then (Raised (IncompleteReadError (st_buffer s) (Some n)), s\<lparr>st_buffer := []\<rparr>)
        else
          (case wait_for_data ''readexactly'' s of
             (Inl e, s1) \<Rightarrow> (Raised e, s1)
           | (Inr w, s1) \<Rightarrow> readexactly_loop n (Some w) env s1)
      else readexactly_finish n s)"
  by pat_completeness auto
termination
  by (relation "measure (\<lambda>(n, w, env, s).
        2 * length env + (case w of None \<Rightarrow> 1 | Some _ \<Rightarrow> 0))") auto

definition readexactly ::
  "int \<Rightarrow> feed list list \<Rightarrow> 'a stream_scheme \<Rightarrow> bytes progress \<times> 'a stream_scheme" where
  "readexactly n env s =
     (case check_read s of
        Some e \<Rightarrow> (Raised e, s)
      | None \<Rightarrow>
          if n < 0
          then (Raised (ValueError ''readexactly size can not be less than zero''), s)
          else
            (case st_exception s of
               Some e \<Rightarrow> (Raised e, s)
             | None \<Rightarrow> if n = 0 then (Returned [], s) else readexactly_loop n None env s))"

subsection \<open>What \<open>bytes_find\<close> computes\<close>

text \<open>\<open>occurs_at sub buf j\<close>: the bytes \<open>sub\<close> stand in \<open>buf\<close> at index \<open>j\<close>.\<close>

definition occurs_at :: "bytes \<Rightarrow> bytes \<Rightarrow> nat \<Rightarrow> bool" where
  "occurs_at sub buf j = (take (length sub) (drop j buf) = sub)"

lemma find_from_first:
  assumes "sub \<noteq> []" "occurs_at sub xs k" "\<forall>j<k. \<not> occurs_at sub xs j"
  shows "find_from sub xs i = int (i + k)"
  using assms
proof (induction xs arbitrary: i k)
  case Nil
  then show ?case by (simp add: occurs_at_def)
next
  case (Cons x xs)
  show ?case
  proof (cases k)
    case 0
    with Cons.prems show ?thesis by (simp add: occurs_at_def)
  next
    case (Suc k')
    with Cons.prems have n0: "take (length sub) (x # xs) \<noteq> sub"
      by (auto simp: occurs_at_def)
    have o: "occurs_at sub xs k'" using Cons.prems Suc by (simp add: occurs_at_def)
    have f: "\<forall>j<k'. \<not> occurs_at sub xs j"
    proof (intro allI impI)
      fix j assume "j < k'"
      then have "Suc j < k" using Suc by simp
      with Cons.prems have "\<not> occurs_at sub (x # xs) (Suc j)" by blast
      then show "\<not> occurs_at sub xs j" by (simp add: occurs_at_def)
    qed
    from Cons.IH[OF Cons.prems(1) o f, of "Suc i"] n0 Suc show ?thesis by simp
  qed
qed


lemma occurs_at_drop: "occurs_at sub (drop m buf) j = occurs_at sub buf (m + j)"
  by (simp add: occurs_at_def add.commute)

lemma bytes_find_first:
  assumes "sub \<noteq> []" "0 \<le> offset" "nat offset \<le> k" "occurs_at sub buf k"
    "\<forall>j. nat offset \<le> j \<and> j < k \<longrightarrow> \<not> occurs_at sub buf j"
  shows "bytes_find buf sub offset = int k"
proof -
  have o: "occurs_at sub (drop (nat offset) buf) (k - nat offset)"
    using assms by (simp add: occurs_at_drop)
  have f: "\<forall>j<k - nat offset. \<not> occurs_at sub (drop (nat offset) buf) j"
    using assms by (auto simp: occurs_at_drop)
  from find_from_first[OF assms(1) o f, of "nat offset"] assms(3)
  show ?thesis by (simp add: bytes_find_def)
qed


lemma occurs_at_length:
  assumes "sub \<noteq> []" "occurs_at sub buf k"
  shows "k + length sub \<le> length buf"
proof -
  from assms(2) have "length (take (length sub) (drop k buf)) = length sub"
    by (simp add: occurs_at_def)
  then have "min (length sub) (length buf - k) = length sub" by simp
  moreover from assms(1) have "0 < length sub" by simp
  ultimately show ?thesis by arith
qed

lemma readuntil_scan_found:
  assumes "sub \<noteq> []" "0 \<le> offset" "nat offset \<le> k" "occurs_at sub (st_buffer s) k"
    "\<forall>j. nat offset \<le> j \<and> j < k \<longrightarrow> \<not> occurs_at sub (st_buffer s) j"
  shows "readuntil_scan sub offset s = Found (int k)"
proof -
  from occurs_at_length[OF assms(1,4)] assms(2,3)
  have "int (length (st_buffer s)) - offset \<ge> int (length sub)" by linarith
  moreover have "bytes_find (st_buffer s) sub offset = int k"
    using assms by (rule bytes_find_first)
  ultimately show ?thesis by (simp add: readuntil_scan_def Let_def)
qed


lemma readuntil_finish_ok:
  assumes "isep \<le> st_limit s" "st_paused s \<longrightarrow> st_has_transport s"
  shows "fst (readuntil_finish sub isep s) = Returned (take (nat (isep + int (length sub))) (st_buffer s)) \<and>
         st_buffer (snd (readuntil_finish sub isep s)) = drop (nat (isep + int (length sub))) (st_buffer s) \<and>
         st_eof (snd (readuntil_finish sub isep s)) = st_eof s"
  using assms
  by (auto simp: readuntil_finish_def Let_def maybe_resume_transport_def resume_reading_def)

subsection \<open>Example streams\<close>

text \<open>
  A read-write stream with a transport that can pause, after the protocol has fed it
  the given events.
\<close>

definition fed_stream :: "int \<Rightarrow> feed list \<Rightarrow> stream" where
  "fed_stream limit feeds = apply_batch feeds (projr (stream_init True True True True limit))"

definition newline :: bytes where
  "newline = [CHR 0x0A]"

lemmas stream_eval =
  fed_stream_def apply_batch_def stream_init_def feed_data_def feed_eof_def check_read_def
  wakeup_waiter_def DEFAULT_LIMIT_def newline_def readuntil_def readuntil_scan_def
  bytes_find_def readuntil_finish_def maybe_resume_transport_def wait_for_data_def
  create_future_def resume_reading_def set_exception_def await_outcome_def fut_done_def
  fut_cancelled_def

lemma readuntil_example_found: "fst (readuntil newline [] (fed_stream DEFAULT_LIMIT [FeedData (''ab'' @ newline @ ''cd'')])) = Returned (''ab'' @ newline)"
  "st_buffer (snd (readuntil newline [] (fed_stream DEFAULT_LIMIT [FeedData (''ab'' @ newline @ ''cd'')]))) = ''cd''"
  by (simp_all add: stream_eval)

lemma readuntil_example_limit: "readuntil newline [] (fed_stream 3 [FeedData ''abcdef'']) =
   (Raised (LimitOverrunError ''Separator is not found, and chunk exceed the limit'' 6), fed_stream 3 [FeedData ''abcdef''])"
  by (simp add: stream_eval)

lemma readuntil_example_eof: "fst (readuntil newline [] (fed_stream DEFAULT_LIMIT [FeedData ''partial'', FeedEof])) = Raised (IncompleteReadError ''partial'' None)"
  "st_buffer (snd (readuntil newline [] (fed_stream DEFAULT_LIMIT [FeedData ''partial'', FeedEof]))) = []"
  "fst (readuntil newline [[FeedEof]] (fed_stream DEFAULT_LIMIT [FeedData ''partial''])) = Raised (IncompleteReadError ''partial'' None)"
  "st_buffer (snd (readuntil newline [[FeedEof]] (fed_stream DEFAULT_LIMIT [FeedData ''partial'']))) = []"
  by (simp_all add: stream_eval)

lemma readuntil_enter:
  assumes "st_readable s" "st_exception s = None" "separator \<noteq> []"
  shows "readuntil separator env s = readuntil_loop separator 0 None env s"
  using assms by (simp add: readuntil_def check_read_def)

text \<open>
  Claim C10, as the code has it. A readable stream without a stored exception holds
  the non-empty separator in its buffer, first at index \<open>isep\<close>, and \<open>isep\<close> is within
  the limit (a paused stream has its transport: \<^verbatim>\<open>_paused\<close> is only set after a call
  on it). Then \<^verbatim>\<open>readuntil\<close> returns the bytes through that occurrence and leaves the
  rest buffered, whatever the EOF flag is and whatever is fed later: the flag is read
  only after a scan that finds nothing.
\<close>

theorem readuntil_buffered_match:
  assumes "st_readable s" "st_exception s = None" "separator \<noteq> []"
    "st_paused s \<longrightarrow> st_has_transport s"
    "occurs_at separator (st_buffer s) isep"
    "\<forall>j<isep. \<not> occurs_at separator (st_buffer s) j"
    "int isep \<le> st_limit s"
  shows "fst (readuntil separator env s) =
           Returned (take (isep + length separator) (st_buffer s)) \<and>
         st_buffer (snd (readuntil separator env s)) =
           drop (isep + length separator) (st_buffer s) \<and>
         st_eof (snd (readuntil separator env s)) = st_eof s"
proof -
  have "readuntil_scan separator 0 s = Found (int isep)"
    using assms(3,5,6) by (intro readuntil_scan_found) auto
  then have "readuntil separator env s = readuntil_finish separator (int isep) s"
    using assms(1,2,3) by (simp add: readuntil_enter)
  with readuntil_finish_ok[OF assms(7,4), of separator] show ?thesis
    by (simp add: nat_add_distrib)
qed



theorem readuntil_buffered_match_witness:
  "st_eof (fed_stream DEFAULT_LIMIT [FeedData (''ab'' @ newline @ ''cd''), FeedEof]) \<and>
   fst (readuntil newline [] (fed_stream DEFAULT_LIMIT [FeedData (''ab'' @ newline @ ''cd''), FeedEof]))
     = Returned (''ab'' @ newline) \<and>
   st_buffer (snd (readuntil newline []
      (fed_stream DEFAULT_LIMIT [FeedData (''ab'' @ newline @ ''cd''), FeedEof]))) = ''cd''"
proof -
  let ?s = "fed_stream DEFAULT_LIMIT [FeedData (''ab'' @ newline @ ''cd''), FeedEof]"
  have b: "st_buffer ?s = ''ab'' @ newline @ ''cd''" and e: "st_eof ?s"
    and h: "st_readable ?s" "st_exception ?s = None" "newline \<noteq> []"
      "st_paused ?s \<longrightarrow> st_has_transport ?s" "int 2 \<le> st_limit ?s"
    by (simp_all add: stream_eval)
  have o: "occurs_at newline (st_buffer ?s) 2"
    unfolding b by (simp add: occurs_at_def newline_def)
  have f: "\<forall>j<2. \<not> occurs_at newline (st_buffer ?s) j"
    unfolding b by (auto simp: occurs_at_def newline_def less_Suc_eq numeral_2_eq_2)
  from readuntil_buffered_match [OF h(1,2,3,4) o f h(5), of "[]"] e
  show ?thesis unfolding b by (simp add: newline_def)
qed

text \<open>
  The claim as it is written, for every stream, fails: \<^verbatim>\<open>readuntil\<close> raises a stored
  exception before it looks at the buffer. The protocol feeds \<^verbatim>\<open>b"ab\ncd"\<close> and then
  loses the connection with an error, which \<^verbatim>\<open>set_exception\<close> stores; the separator
  is buffered at index 2, within the limit, and the call raises the stored error and
  consumes nothing.
\<close>

theorem readuntil_stored_exception_counterexample:
  "st_readable (fed_stream DEFAULT_LIMIT
     [FeedData (''ab'' @ newline @ ''cd''), SetException (TransportError 3)]) \<and>
   st_buffer (fed_stream DEFAULT_LIMIT
     [FeedData (''ab'' @ newline @ ''cd''), SetException (TransportError 3)]) =
     ''ab'' @ newline @ ''cd'' \<and>
   occurs_at newline (st_buffer (fed_stream DEFAULT_LIMIT
     [FeedData (''ab'' @ newline @ ''cd''), SetException (TransportError 3)])) 2 \<and>
   2 \<le> st_limit (fed_stream DEFAULT_LIMIT
     [FeedData (''ab'' @ newline @ ''cd''), SetException (TransportError 3)]) \<and>
   fst (readuntil newline [] (fed_stream DEFAULT_LIMIT
     [FeedData (''ab'' @ newline @ ''cd''), SetException (TransportError 3)])) =
     Raised (TransportError 3) \<and>
   st_buffer (snd (readuntil newline [] (fed_stream DEFAULT_LIMIT
     [FeedData (''ab'' @ newline @ ''cd''), SetException (TransportError 3)]))) =
     ''ab'' @ newline @ ''cd''"
  by (simp add: stream_eval occurs_at_def)




subsection \<open>feed\_data and the pacing of the transport\<close>

text \<open>
  Claim C9, as the code has it. On a readable stream before EOF, \<^verbatim>\<open>feed_data\<close> with
  non-empty data appends the data and empties the waiter slot, giving the waiter its
  result unless it is cancelled; if the stream has its transport, is not paused and
  now buffers more than twice the limit, \<^verbatim>\<open>pause_reading\<close> is called, and the stream
  is paused if the transport implements it and forgets the transport if not;
  otherwise no call is made. \<^verbatim>\<open>feed_data\<close> with empty data changes nothing.
  \<^verbatim>\<open>_maybe_resume_transport\<close>, called by the reads that consume data, resumes a paused
  stream exactly when the buffer is within the limit, while \<^verbatim>\<open>_wait_for_data\<close>,
  called by a read that needs more data, resumes a paused stream whatever it
  buffers. The default limit is 65536.
\<close>

theorem feed_data_pacing:
  "(st_readable s \<and> \<not> st_eof s \<and> data \<noteq> [] \<longrightarrow>
      \<not> isl (feed_data data s) \<and>
      st_buffer (projr (feed_data data s)) = st_buffer s @ data \<and>
      st_waiter (projr (feed_data data s)) = None \<and>
      (\<forall>w. st_waiter s = Some w \<longrightarrow>
           futs (projr (feed_data data s)) w =
             (if futs s w = Cancelled then Cancelled else Result)) \<and>
      (if st_has_transport s \<and> \<not> st_paused s \<and>
          int (length (st_buffer s @ data)) > 2 * st_limit s
       then tr_calls (projr (feed_data data s)) = tr_calls s @ [PauseReading] \<and>
            st_paused (projr (feed_data data s)) = tr_can_pause s \<and>
            st_has_transport (projr (feed_data data s)) = tr_can_pause s
       else tr_calls (projr (feed_data data s)) = tr_calls s \<and>
            st_paused (projr (feed_data data s)) = st_paused s \<and>
            st_has_transport (projr (feed_data data s)) = st_has_transport s)) \<and>
   (st_readable s1 \<and> \<not> st_eof s1 \<longrightarrow> feed_data [] s1 = Inr s1) \<and>
   (st_has_transport s2 \<longrightarrow>
      maybe_resume_transport s2 =
        Inr (if st_paused s2 \<and> int (length (st_buffer s2)) \<le> st_limit s2
             then s2\<lparr>st_paused := False, tr_calls := tr_calls s2 @ [ResumeReading]\<rparr>
             else s2)) \<and>
   (st_waiter s3 = None \<and> \<not> st_eof s3 \<and> st_paused s3 \<and> st_has_transport s3 \<longrightarrow>
      \<not> isl (fst (wait_for_data name s3)) \<and>
      \<not> st_paused (snd (wait_for_data name s3)) \<and>
      tr_calls (snd (wait_for_data name s3)) = tr_calls s3 @ [ResumeReading]) \<and>
   DEFAULT_LIMIT = 65536"
proof (intro conjI impI)
  assume a: "st_readable s \<and> \<not> st_eof s \<and> data \<noteq> []"
  show "\<not> isl (feed_data data s)"
    using a by (simp add: feed_data_def check_read_def Let_def)
  show "st_buffer (projr (feed_data data s)) = st_buffer s @ data"
    using a by (simp add: feed_data_def check_read_def wakeup_waiter_def Let_def split: option.splits)
  show "st_waiter (projr (feed_data data s)) = None"
    using a by (simp add: feed_data_def check_read_def wakeup_waiter_def Let_def split: option.splits)
  show "\<forall>w. st_waiter s = Some w \<longrightarrow>
           futs (projr (feed_data data s)) w =
             (if futs s w = Cancelled then Cancelled else Result)"
    using a by (simp add: feed_data_def check_read_def wakeup_waiter_def Let_def fut_cancelled_def split: option.splits)
  show "if st_has_transport s \<and> \<not> st_paused s \<and>
          int (length (st_buffer s @ data)) > 2 * st_limit s
       then tr_calls (projr (feed_data data s)) = tr_calls s @ [PauseReading] \<and>
            st_paused (projr (feed_data data s)) = tr_can_pause s \<and>
            st_has_transport (projr (feed_data data s)) = tr_can_pause s
       else tr_calls (projr (feed_data data s)) = tr_calls s \<and>
            st_paused (projr (feed_data data s)) = st_paused s \<and>
            st_has_transport (projr (feed_data data s)) = st_has_transport s"
    using a by (simp add: feed_data_def check_read_def wakeup_waiter_def Let_def split: option.splits)
next
  assume "st_readable s1 \<and> \<not> st_eof s1"
  then show "feed_data [] s1 = Inr s1"
    by (simp add: feed_data_def check_read_def)
next
  assume "st_has_transport s2"
  then show "maybe_resume_transport s2 =
        Inr (if st_paused s2 \<and> int (length (st_buffer s2)) \<le> st_limit s2
             then s2\<lparr>st_paused := False, tr_calls := tr_calls s2 @ [ResumeReading]\<rparr>
             else s2)"
    by (simp add: maybe_resume_transport_def resume_reading_def)
next
  assume a: "st_waiter s3 = None \<and> \<not> st_eof s3 \<and> st_paused s3 \<and> st_has_transport s3"
  then show "\<not> isl (fst (wait_for_data name s3))"
    "\<not> st_paused (snd (wait_for_data name s3))"
    "tr_calls (snd (wait_for_data name s3)) = tr_calls s3 @ [ResumeReading]"
    by (simp_all add: wait_for_data_def resume_reading_def create_future_def)
next
  show "DEFAULT_LIMIT = 65536" by (simp add: DEFAULT_LIMIT_def)
qed

lemmas stream_eval2 = stream_eval readexactly_def readexactly_finish_def

text \<open>
  The claim as it is written fails in two places. A stream with limit 1 is fed three
  bytes and pauses its transport. \<^verbatim>\<open>readexactly(5)\<close> then has to wait, and resumes the
  transport although three bytes, more than the limit, are buffered. While that
  reader waits, \<^verbatim>\<open>feed_data(b'')\<close> returns at once and does not wake it.
\<close>

theorem feed_data_pacing_counterexample:
  "st_paused (fed_stream 1 [FeedData ''abc'']) \<and>
   tr_calls (fed_stream 1 [FeedData ''abc'']) = [PauseReading] \<and>
   fst (readexactly 5 [] (fed_stream 1 [FeedData ''abc''])) = Awaiting 1 \<and>
   tr_calls (snd (readexactly 5 [] (fed_stream 1 [FeedData ''abc'']))) =
     [PauseReading, ResumeReading] \<and>
   st_buffer (snd (readexactly 5 [] (fed_stream 1 [FeedData ''abc'']))) = ''abc'' \<and>
   st_limit (snd (readexactly 5 [] (fed_stream 1 [FeedData ''abc'']))) = 1 \<and>
   st_waiter (snd (readexactly 5 [] (fed_stream 1 [FeedData ''abc'']))) = Some 1 \<and>
   futs (snd (readexactly 5 [] (fed_stream 1 [FeedData ''abc'']))) 1 = Pending \<and>
   st_waiter (projr (feed_data [] (snd (readexactly 5 [] (fed_stream 1 [FeedData ''abc'']))))) =
     Some 1 \<and>
   futs (projr (feed_data [] (snd (readexactly 5 [] (fed_stream 1 [FeedData ''abc'']))))) 1 =
     Pending"
  by (simp add: stream_eval2)


theorem feed_data_pacing_witness:
  "st_waiter (snd (readexactly 5 [] (fed_stream 1 []))) = Some 1 \<and>
   futs (snd (readexactly 5 [] (fed_stream 1 []))) 1 = Pending \<and>
   st_buffer (projr (feed_data ''abc'' (snd (readexactly 5 [] (fed_stream 1 []))))) = ''abc'' \<and>
   futs (projr (feed_data ''abc'' (snd (readexactly 5 [] (fed_stream 1 []))))) 1 = Result \<and>
   tr_calls (projr (feed_data ''abc'' (snd (readexactly 5 [] (fed_stream 1 []))))) =
     [PauseReading] \<and>
   st_paused (projr (feed_data ''abc'' (snd (readexactly 5 [] (fed_stream 1 []))))) \<and>
   feed_data [] (fed_stream 1 []) = Inr (fed_stream 1 []) \<and>
   maybe_resume_transport (fed_stream 1 [FeedData ''a'']) = Inr (fed_stream 1 [FeedData ''a'']) \<and>
   tr_calls (snd (wait_for_data ''read'' (fed_stream 1 [FeedData ''abc''])))
     = [PauseReading, ResumeReading]"
proof -
  let ?s = "snd (readexactly 5 [] (fed_stream 1 []))"
  let ?t = "fed_stream 1 [FeedData ''abc'']"
  have h: "st_readable ?s \<and> \<not> st_eof ?s \<and> ''abc'' \<noteq> []"
    by (simp add: stream_eval2)
  have w: "st_waiter ?s = Some 1" "futs ?s 1 = Pending" "st_buffer ?s = []" "tr_calls ?s = []"
    "st_has_transport ?s" "\<not> st_paused ?s" "st_limit ?s = 1" "tr_can_pause ?s"
    by (simp_all add: stream_eval2)
  have h1: "st_readable (fed_stream 1 []) \<and> \<not> st_eof (fed_stream 1 [])"
    by (simp add: stream_eval2)
  have h2: "st_has_transport (fed_stream 1 [FeedData ''a''])"
    "\<not> st_paused (fed_stream 1 [FeedData ''a''])"
    by (simp_all add: stream_eval2)
  have h3: "st_waiter ?t = None \<and> \<not> st_eof ?t \<and> st_paused ?t \<and> st_has_transport ?t"
    "tr_calls ?t = [PauseReading]"
    by (simp_all add: stream_eval2)
  note t = feed_data_pacing [where s = ?s and data = "''abc''" and ?s1.0 = "fed_stream 1 []"
      and ?s2.0 = "fed_stream 1 [FeedData ''a'']" and ?s3.0 = ?t and name = "''read''"]
  from t h have a: "st_buffer (projr (feed_data ''abc'' ?s)) = st_buffer ?s @ ''abc''"
    "\<forall>w. st_waiter ?s = Some w \<longrightarrow>
           futs (projr (feed_data ''abc'' ?s)) w =
             (if futs ?s w = Cancelled then Cancelled else Result)"
    "if st_has_transport ?s \<and> \<not> st_paused ?s \<and>
          int (length (st_buffer ?s @ ''abc'')) > 2 * st_limit ?s
       then tr_calls (projr (feed_data ''abc'' ?s)) = tr_calls ?s @ [PauseReading] \<and>
            st_paused (projr (feed_data ''abc'' ?s)) = tr_can_pause ?s \<and>
            st_has_transport (projr (feed_data ''abc'' ?s)) = tr_can_pause ?s
       else tr_calls (projr (feed_data ''abc'' ?s)) = tr_calls ?s \<and>
            st_paused (projr (feed_data ''abc'' ?s)) = st_paused ?s \<and>
            st_has_transport (projr (feed_data ''abc'' ?s)) = st_has_transport ?s"
    by blast+
  from t h1 have b: "feed_data [] (fed_stream 1 []) = Inr (fed_stream 1 [])" by blast
  from t h2(1) have c: "maybe_resume_transport (fed_stream 1 [FeedData ''a'']) =
        Inr (if st_paused (fed_stream 1 [FeedData ''a'']) \<and>
                int (length (st_buffer (fed_stream 1 [FeedData ''a'']))) \<le>
                  st_limit (fed_stream 1 [FeedData ''a''])
             then (fed_stream 1 [FeedData ''a''])\<lparr>st_paused := False,
                    tr_calls := tr_calls (fed_stream 1 [FeedData ''a'']) @ [ResumeReading]\<rparr>
             else fed_stream 1 [FeedData ''a''])"
    by blast
  from t h3(1) have d: "tr_calls (snd (wait_for_data ''read'' ?t)) =
      tr_calls ?t @ [ResumeReading]"
    by blast
  from a(2) w(1,2) have a2: "futs (projr (feed_data ''abc'' ?s)) 1 = Result" by simp
  from a(3) w have a3: "tr_calls (projr (feed_data ''abc'' ?s)) = [PauseReading]"
    "st_paused (projr (feed_data ''abc'' ?s))" by simp_all
  from c h2(2) have c2: "maybe_resume_transport (fed_stream 1 [FeedData ''a'']) =
      Inr (fed_stream 1 [FeedData ''a''])" by simp
  show ?thesis using w(1,2) a(1) w(3) a2 a3 b c2 d h3(2) by simp
qed

subsection \<open>What readexactly returns\<close>




definition waiting :: "nat \<Rightarrow> 'a stream_scheme \<Rightarrow> bool" where
  "waiting w s \<longleftrightarrow> st_waiter s = Some w \<and> futs s w = Pending"



















section \<open>Flow control of the write side\<close>

text \<open>
  A connection is a stream together with its protocol: the fields of
  \<^verbatim>\<open>FlowControlMixin\<close> (\<^verbatim>\<open>_paused\<close>, \<^verbatim>\<open>_drain_waiter\<close>, \<^verbatim>\<open>_connection_lost\<close>) and of
  \<^verbatim>\<open>_BaseStreamProtocol\<close> (whether \<^verbatim>\<open>_stream\<close> still refers to the stream, whether
  \<^verbatim>\<open>_transport\<close> is set, the future \<^verbatim>\<open>_closed\<close>).
\<close>

record connection = stream +
  flow_paused :: bool
  flow_drain_waiter :: "nat option"
  flow_connection_lost :: bool
  proto_stream :: bool
  proto_transport :: bool
  proto_closed :: nat

text \<open>
  A stream of the given mode on a transport, after \<^verbatim>\<open>connection_made\<close>: the
  protocol's \<^verbatim>\<open>_closed\<close> is the second future of the loop.
\<close>

definition connection_init :: "bool \<Rightarrow> bool \<Rightarrow> int \<Rightarrow> exn + connection" where
  "connection_init readable writable limit =
     (if limit \<le> 0 then Inl (ValueError ''Limit cannot be <= 0'')
      else Inr \<lparr>futs = (\<lambda>_. Pending)(0 := Result), nfut = 2,
                st_readable = readable, st_writable = writable,
                st_has_transport = True, st_limit = limit, st_buffer = [],
                st_eof = False, st_waiter = None, st_exception = None, st_paused = False,
                st_complete_fut = 0,
                tr_can_pause = True, tr_closing = False, tr_calls = [],
                flow_paused = False, flow_drain_waiter = None, flow_connection_lost = False,
                proto_stream = True, proto_transport = True, proto_closed = 1\<rparr>)"

definition pause_writing :: "'a connection_scheme \<Rightarrow> exn + 'a connection_scheme" where
  "pause_writing s =
     (if flow_paused s then Inl AssertionError else Inr (s\<lparr>flow_paused := True\<rparr>))"

definition resume_writing :: "'a connection_scheme \<Rightarrow> exn + 'a connection_scheme" where
  "resume_writing s =
     (if \<not> flow_paused s then Inl AssertionError
      else
        let s1 = s\<lparr>flow_paused := False\<rparr> in
        (case flow_drain_waiter s1 of
           None \<Rightarrow> Inr s1
         | Some waiter \<Rightarrow>
             let s2 = s1\<lparr>flow_drain_waiter := None\<rparr> in
             if \<not> fut_done (futs s2 waiter)
             then Inr (s2\<lparr>futs := (futs s2)(waiter := Result)\<rparr>)
             else Inr s2))"

text \<open>\<^verbatim>\<open>FlowControlMixin.connection_lost\<close>.\<close>

definition connection_lost :: "exn option \<Rightarrow> 'a connection_scheme \<Rightarrow> 'a connection_scheme" where
  "connection_lost exc s =
     (let s1 = s\<lparr>flow_connection_lost := True\<rparr> in
      if \<not> flow_paused s1 then s1
      else
        (case flow_drain_waiter s1 of
           None \<Rightarrow> s1
         | Some waiter \<Rightarrow>
             let s2 = s1\<lparr>flow_drain_waiter := None\<rparr> in
             if fut_done (futs s2 waiter) then s2
             else
               (case exc of
                  None \<Rightarrow> s2\<lparr>futs := (futs s2)(waiter := Result)\<rparr>
                | Some e \<Rightarrow> s2\<lparr>futs := (futs s2)(waiter := Failed e)\<rparr>)))"

text \<open>
  \<^verbatim>\<open>_BaseStreamProtocol.connection_lost\<close>: tell the stream (\<^verbatim>\<open>feed_eof\<close> checks the
  mode, and its exception would leave the method), complete \<^verbatim>\<open>_closed\<close>, run the
  flow-control method, and forget the transport.
\<close>

definition base_connection_lost ::
  "exn option \<Rightarrow> 'a connection_scheme \<Rightarrow> exn + 'a connection_scheme" where
  "base_connection_lost exc s =
     (case (if proto_stream s
            then (case exc of None \<Rightarrow> feed_eof s | Some e \<Rightarrow> Inr (set_exception e s))
            else Inr s) of
        Inl e \<Rightarrow> Inl e
      | Inr s1 \<Rightarrow>
          let s2 = (if \<not> fut_done (futs s1 (proto_closed s1))
                    then s1\<lparr>futs := (futs s1)(proto_closed s1 :=
                                 (case exc of None \<Rightarrow> Result | Some e \<Rightarrow> Failed e))\<rparr>
                    else s1)
          in Inr ((connection_lost exc s2)\<lparr>proto_transport := False\<rparr>))"

text \<open>\<^verbatim>\<open>FlowControlMixin._drain_helper\<close> up to its await.\<close>

definition drain_helper :: "'a connection_scheme \<Rightarrow> unit progress \<times> 'a connection_scheme" where
  "drain_helper s =
     (if flow_connection_lost s then (Raised (ConnectionResetError ''Connection lost''), s)
      else if \<not> flow_paused s then (Returned (), s)
      else if \<not> (case flow_drain_waiter s of None \<Rightarrow> True
                  | Some waiter \<Rightarrow> fut_cancelled (futs s waiter))
      then (Raised AssertionError, s)
      else
        let (waiter, s1) = create_future s
        in (Awaiting waiter, s1\<lparr>flow_drain_waiter := Some waiter\<rparr>))"

text \<open>
  \<^verbatim>\<open>Stream.drain\<close>: from the call to its first suspension, from the end of
  \<^verbatim>\<open>sleep(0)\<close> on, and from the end of the await of the drain waiter on.
\<close>

definition drain :: "'a connection_scheme \<Rightarrow> unit progress \<times> 'a connection_scheme" where
  "drain s =
     (case check_write s of
        Some e \<Rightarrow> (Raised e, s)
      | None \<Rightarrow>
          (case st_exception s of
             Some exc \<Rightarrow> (Raised exc, s)
           | None \<Rightarrow>
               if \<not> st_has_transport s then (Raised AttributeError, s)
               else if tr_closing s then (Sleeping, s)
               else drain_helper s))"

definition drain_after_sleep :: "'a connection_scheme \<Rightarrow> unit progress \<times> 'a connection_scheme" where
  "drain_after_sleep s = drain_helper s"

definition drain_resume :: "nat \<Rightarrow> 'a connection_scheme \<Rightarrow> unit progress" where
  "drain_resume waiter s =
     (if \<not> fut_done (futs s waiter) then Awaiting waiter
      else
        (case await_outcome False (futs s waiter) of
           Some e \<Rightarrow> Raised e
         | None \<Rightarrow> Returned ()))"

text \<open>
  \<^verbatim>\<open>Stream._fast_drain\<close> returns an awaitable: a future (new and failed, or
  \<^verbatim>\<open>_complete_fut\<close>), or a new task that runs \<^verbatim>\<open>drain()\<close>.
\<close>

datatype awaitable = Future nat | DrainTask

definition failed_future :: "exn \<Rightarrow> 'a connection_scheme \<Rightarrow> awaitable \<times> 'a connection_scheme" where
  "failed_future exc s =
     (let (fut, s1) = create_future s in (Future fut, s1\<lparr>futs := (futs s1)(fut := Failed exc)\<rparr>))"

definition fast_drain :: "'a connection_scheme \<Rightarrow> awaitable \<times> 'a connection_scheme" where
  "fast_drain s =
     (case st_exception s of
        Some exc \<Rightarrow> failed_future exc s
      | None \<Rightarrow>
          if \<not> tr_closing s \<and> flow_connection_lost s
          then failed_future (ConnectionResetError ''Connection lost'') s
          else if \<not> tr_closing s \<and> \<not> flow_paused s then (Future (st_complete_fut s), s)
          else (DrainTask, s))"

text \<open>\<^verbatim>\<open>Stream.write\<close> (\<open>write\<close> is a keyword of the prover).\<close>

definition stream_write :: "bytes \<Rightarrow> 'a connection_scheme \<Rightarrow> exn + awaitable \<times> 'a connection_scheme" where
  "stream_write data s =
     (case check_write s of
        Some e \<Rightarrow> Inl e
      | None \<Rightarrow>
          if \<not> st_has_transport s then Inl AttributeError
          else Inr (fast_drain (s\<lparr>tr_calls := tr_calls s @ [TWrite data]\<rparr>)))"

text \<open>
  How a drain that has started ends when nothing else happens: it is the result of
  the call, of the part after \<^verbatim>\<open>sleep(0)\<close>, or it is still waiting.
\<close>

definition drain_outcome :: "'a connection_scheme \<Rightarrow> unit progress" where
  "drain_outcome s =
     (case drain s of
        (Sleeping, s1) \<Rightarrow> fst (drain_after_sleep s1)
      | (p, _) \<Rightarrow> p)"

text \<open>What awaiting the result of \<^verbatim>\<open>write\<close> gives.\<close>

definition write_outcome :: "bytes \<Rightarrow> 'a connection_scheme \<Rightarrow> unit progress" where
  "write_outcome data s =
     (case stream_write data s of
        Inl e \<Rightarrow> Raised e
      | Inr (Future fut, s1) \<Rightarrow>
          (case await_outcome False (futs s1 fut) of
             Some e \<Rightarrow> Raised e
           | None \<Rightarrow> if fut_done (futs s1 fut) then Returned () else Awaiting fut)
      | Inr (DrainTask, s1) \<Rightarrow> drain_outcome s1)"


subsection \<open>A suspended drain\<close>

text \<open>
  Everything that can happen to a connection after a point in time: protocol
  callbacks, feeds, and further calls of \<^verbatim>\<open>drain\<close> and \<^verbatim>\<open>write\<close>. A call that raises
  leaves the connection as it was.
\<close>

datatype cevent =
    CPauseWriting | CResumeWriting | CConnectionLost "exn option" | CFeed feed
  | CDrain | CWrite bytes

fun cstep :: "cevent \<Rightarrow> 'a connection_scheme \<Rightarrow> 'a connection_scheme" where
  "cstep CPauseWriting s = (case pause_writing s of Inl _ \<Rightarrow> s | Inr s1 \<Rightarrow> s1)"
| "cstep CResumeWriting s = (case resume_writing s of Inl _ \<Rightarrow> s | Inr s1 \<Rightarrow> s1)"
| "cstep (CConnectionLost exc) s = (case base_connection_lost exc s of Inl _ \<Rightarrow> s | Inr s1 \<Rightarrow> s1)"
| "cstep (CFeed f) s = apply_feed f s"
| "cstep CDrain s = snd (drain s)"
| "cstep (CWrite data) s = (case stream_write data s of Inl _ \<Rightarrow> s | Inr (_, s1) \<Rightarrow> s1)"

definition crun :: "cevent list \<Rightarrow> 'a connection_scheme \<Rightarrow> 'a connection_scheme" where
  "crun evs s = fold cstep evs s"

lemma wakeup_waiter_flow [simp]:
  "flow_connection_lost (wakeup_waiter s) = flow_connection_lost s"
  by (simp add: wakeup_waiter_def Let_def split: option.splits)

lemma set_exception_flow [simp]:
  "flow_connection_lost (set_exception e s) = flow_connection_lost s"
  by (simp add: set_exception_def Let_def split: option.splits)

lemma connection_lost_flow [simp]:
  "flow_connection_lost (connection_lost exc s)"
  by (simp add: connection_lost_def Let_def split: option.splits)

lemma cstep_lost:
  assumes "flow_connection_lost s"
  shows "flow_connection_lost (cstep e s)"
proof (cases e)
  case CPauseWriting
  with assms show ?thesis by (simp add: pause_writing_def)
next
  case CResumeWriting
  with assms show ?thesis by (simp add: resume_writing_def Let_def split: option.splits)
next
  case (CConnectionLost exc)
  with assms show ?thesis
    by (simp add: base_connection_lost_def Let_def split: sum.splits)
next
  case (CFeed f)
  with assms show ?thesis
    by (cases f) (simp_all add: feed_data_def feed_eof_def Let_def split: option.splits)
next
  case CDrain
  with assms show ?thesis
    by (simp add: drain_def drain_helper_def split: option.splits)
next
  case (CWrite data)
  with assms show ?thesis
    by (auto simp: stream_write_def fast_drain_def failed_future_def create_future_def
        split: option.splits if_splits)
qed

lemma crun_lost: "flow_connection_lost s \<Longrightarrow> flow_connection_lost (crun evs s)"
  unfolding crun_def by (induction evs arbitrary: s) (simp_all add: cstep_lost)

lemma lost_drain_outcome:
  assumes "flow_connection_lost t" "st_writable t" "st_has_transport t"
  shows "drain_outcome t =
     Raised (case st_exception t of Some e \<Rightarrow> e
             | None \<Rightarrow> ConnectionResetError ''Connection lost'')"
  using assms
  by (simp add: drain_outcome_def drain_def check_write_def drain_after_sleep_def
      drain_helper_def split: option.splits)

lemma lost_write_outcome:
  assumes "flow_connection_lost t" "st_writable t" "st_has_transport t"
  shows "write_outcome data t =
     Raised (case st_exception t of Some e \<Rightarrow> e
             | None \<Rightarrow> ConnectionResetError ''Connection lost'')"
proof (cases "st_exception t")
  case (Some e)
  with assms show ?thesis
    by (simp add: write_outcome_def stream_write_def check_write_def fast_drain_def
        failed_future_def create_future_def await_outcome_def)
next
  case None
  show ?thesis
  proof (cases "tr_closing t")
    case True
    let ?t1 = "t\<lparr>tr_calls := tr_calls t @ [TWrite data]\<rparr>"
    have "flow_connection_lost ?t1" "st_writable ?t1" "st_has_transport ?t1"
      "st_exception ?t1 = None" using assms None by simp_all
    from lost_drain_outcome[OF this(1,2,3)] this(4)
    have "drain_outcome ?t1 = Raised (ConnectionResetError ''Connection lost'')" by simp
    with assms None True show ?thesis
      by (simp add: write_outcome_def stream_write_def check_write_def fast_drain_def)
  next
    case False
    with assms None show ?thesis
      by (simp add: write_outcome_def stream_write_def check_write_def fast_drain_def
          failed_future_def create_future_def await_outcome_def)
  qed
qed


text \<open>
  Claim C8, as the code has it. On a writable stream without a stored exception whose
  transport is attached and not closing, \<^verbatim>\<open>drain()\<close> after \<^verbatim>\<open>pause_writing()\<close>
  suspends on a new drain waiter. Let a drain be suspended on the pending drain
  waiter \<open>w\<close> of a paused protocol; until something happens it stays suspended. Then
  \<^verbatim>\<open>resume_writing()\<close> completes it with success. \<^verbatim>\<open>connection_lost(err)\<close> of the stream
  protocol fails it with \<open>err\<close>, marks the connection lost for good, and stores \<open>err\<close>
  on the stream if the protocol still has its stream. \<^verbatim>\<open>connection_lost(None)\<close>
  completes it with success and marks the connection lost for good, provided the
  stream of the protocol, if it still has one, is readable (\<^verbatim>\<open>feed_eof\<close> checks the
  mode first). Whenever the connection is marked lost, on a writable stream that
  still has its transport a drain and the awaitable of a write fail: with the
  exception stored on the stream if there is one, and with \<^verbatim>\<open>ConnectionResetError\<close>
  otherwise.
\<close>

theorem suspended_drain_outcomes:
  assumes "flow_drain_waiter s = Some w" "futs s w = Pending" "flow_paused s"
  shows "drain_resume w s = Awaiting w \<and>
         \<not> isl (resume_writing s) \<and>
         drain_resume w (projr (resume_writing s)) = Returned () \<and>
         \<not> isl (base_connection_lost (Some err) s) \<and>
         drain_resume w (projr (base_connection_lost (Some err) s)) = Raised err \<and>
         st_exception (projr (base_connection_lost (Some err) s)) =
           (if proto_stream s then Some err else st_exception s) \<and>
         flow_connection_lost (crun evs (projr (base_connection_lost (Some err) s))) \<and>
         ((proto_stream s \<longrightarrow> st_readable s) \<longrightarrow>
            \<not> isl (base_connection_lost None s) \<and>
            drain_resume w (projr (base_connection_lost None s)) = Returned () \<and>
            st_exception (projr (base_connection_lost None s)) = st_exception s \<and>
            flow_connection_lost (crun evs (projr (base_connection_lost None s)))) \<and>
         (flow_connection_lost t \<and> st_writable t \<and> st_has_transport t \<longrightarrow>
            drain_outcome t =
              Raised (case st_exception t of Some e \<Rightarrow> e
                      | None \<Rightarrow> ConnectionResetError ''Connection lost'') \<and>
            write_outcome data t =
              Raised (case st_exception t of Some e \<Rightarrow> e
                      | None \<Rightarrow> ConnectionResetError ''Connection lost'')) \<and>
         (st_writable s0 \<and> st_exception s0 = None \<and> st_has_transport s0 \<and>
          \<not> tr_closing s0 \<and> flow_paused s0 \<and> \<not> flow_connection_lost s0 \<and>
          flow_drain_waiter s0 = None \<longrightarrow>
            fst (drain s0) = Awaiting (nfut s0) \<and>
            flow_drain_waiter (snd (drain s0)) = Some (nfut s0) \<and>
            futs (snd (drain s0)) (nfut s0) = Pending \<and>
            flow_paused (snd (drain s0)))"
proof -
  have p: "drain_resume w s = Awaiting w"
    using assms by (simp add: drain_resume_def fut_done_def)
  have r: "\<not> isl (resume_writing s)"
    "drain_resume w (projr (resume_writing s)) = Returned ()"
    using assms
    by (simp_all add: resume_writing_def Let_def fut_done_def drain_resume_def await_outcome_def)
  let ?e = "base_connection_lost (Some err) s"
  have e1: "\<not> isl ?e"
    by (simp add: base_connection_lost_def Let_def)
  have e2: "futs (projr ?e) w = Failed err"
    using assms
    by (auto simp: base_connection_lost_def connection_lost_def set_exception_def Let_def
        fut_done_def fut_cancelled_def split: option.splits)
  have e3: "st_exception (projr ?e) = (if proto_stream s then Some err else st_exception s)"
    by (auto simp: base_connection_lost_def connection_lost_def set_exception_def Let_def
        split: option.splits)
  have e4: "flow_connection_lost (projr ?e)"
    by (simp add: base_connection_lost_def Let_def)
  have n: "\<not> isl (base_connection_lost None s) \<and>
            drain_resume w (projr (base_connection_lost None s)) = Returned () \<and>
            st_exception (projr (base_connection_lost None s)) = st_exception s \<and>
            flow_connection_lost (crun evs (projr (base_connection_lost None s)))"
    if rd: "proto_stream s \<longrightarrow> st_readable s"
  proof -
    let ?n = "base_connection_lost None s"
    have n1: "\<not> isl ?n"
      using rd by (simp add: base_connection_lost_def feed_eof_def check_read_def Let_def)
    have n2: "futs (projr ?n) w = Result"
      using assms rd
      by (auto simp: base_connection_lost_def connection_lost_def feed_eof_def check_read_def
          wakeup_waiter_def Let_def fut_done_def fut_cancelled_def split: option.splits)
    have n3: "st_exception (projr ?n) = st_exception s"
      using rd
      by (auto simp: base_connection_lost_def connection_lost_def feed_eof_def check_read_def
          wakeup_waiter_def Let_def split: option.splits)
    have n4: "flow_connection_lost (projr ?n)"
      using rd by (simp add: base_connection_lost_def feed_eof_def check_read_def Let_def)
    from n1 n2 n3 crun_lost[OF n4] show ?thesis
      by (simp add: drain_resume_def await_outcome_def fut_done_def)
  qed
  have d: "flow_connection_lost t \<and> st_writable t \<and> st_has_transport t \<longrightarrow>
            drain_outcome t =
              Raised (case st_exception t of Some e \<Rightarrow> e
                      | None \<Rightarrow> ConnectionResetError ''Connection lost'') \<and>
            write_outcome data t =
              Raised (case st_exception t of Some e \<Rightarrow> e
                      | None \<Rightarrow> ConnectionResetError ''Connection lost'')"
    using lost_drain_outcome[of t] lost_write_outcome[of t data] by blast
  have e5: "drain_resume w (projr ?e) = Raised err"
    using e2 by (simp add: drain_resume_def await_outcome_def fut_done_def)
  have s: "st_writable s0 \<and> st_exception s0 = None \<and> st_has_transport s0 \<and>
          \<not> tr_closing s0 \<and> flow_paused s0 \<and> \<not> flow_connection_lost s0 \<and>
          flow_drain_waiter s0 = None \<longrightarrow>
            fst (drain s0) = Awaiting (nfut s0) \<and>
            flow_drain_waiter (snd (drain s0)) = Some (nfut s0) \<and>
            futs (snd (drain s0)) (nfut s0) = Pending \<and>
            flow_paused (snd (drain s0))"
    by (simp add: drain_def check_write_def drain_helper_def create_future_def)
  from p r e1 e5 e3 crun_lost[OF e4, of evs] n d s
  show ?thesis by blast
qed


text \<open>
  A read-write connection whose transport has paused writing and on which \<^verbatim>\<open>drain()\<close>
  was called: the drain is suspended on future 2.
\<close>

definition paused_drain :: connection where
  "paused_drain =
     snd (drain (projr (pause_writing (projr (connection_init True True DEFAULT_LIMIT)))))"

lemmas flow_eval =
  paused_drain_def connection_init_def DEFAULT_LIMIT_def pause_writing_def drain_def
  check_write_def drain_helper_def create_future_def base_connection_lost_def
  connection_lost_def set_exception_def feed_eof_def check_read_def wakeup_waiter_def
  fut_done_def fut_cancelled_def drain_resume_def await_outcome_def drain_outcome_def
  drain_after_sleep_def write_outcome_def stream_write_def fast_drain_def failed_future_def
  resume_writing_def

theorem suspended_drain_outcomes_witness:
  "fst (drain (projr (pause_writing (projr (connection_init True True DEFAULT_LIMIT))))) =
     Awaiting 2 \<and>
   flow_drain_waiter paused_drain = Some 2 \<and> futs paused_drain 2 = Pending \<and>
   flow_paused paused_drain \<and>
   drain_resume 2 paused_drain = Awaiting 2 \<and>
   drain_resume 2 (projr (resume_writing paused_drain)) = Returned () \<and>
   drain_resume 2 (projr (base_connection_lost (Some (TransportError 1)) paused_drain)) =
     Raised (TransportError 1) \<and>
   drain_resume 2 (projr (base_connection_lost None paused_drain)) = Returned () \<and>
   drain_outcome (projr (base_connection_lost None paused_drain)) =
     Raised (ConnectionResetError ''Connection lost'') \<and>
   write_outcome ''x'' (projr (base_connection_lost None paused_drain)) =
     Raised (ConnectionResetError ''Connection lost'')"
proof -
  let ?t = "projr (base_connection_lost None paused_drain)"
  let ?p = "projr (pause_writing (projr (connection_init True True DEFAULT_LIMIT)))"
  have h: "flow_drain_waiter paused_drain = Some 2" "futs paused_drain 2 = Pending"
    "flow_paused paused_drain"
    by (simp_all add: flow_eval)
  have rd: "proto_stream paused_drain \<longrightarrow> st_readable paused_drain"
    by (simp add: flow_eval)
  have t: "flow_connection_lost ?t \<and> st_writable ?t \<and> st_has_transport ?t"
    "st_exception ?t = None"
    by (simp_all add: flow_eval)
  have p: "st_writable ?p \<and> st_exception ?p = None \<and> st_has_transport ?p \<and>
          \<not> tr_closing ?p \<and> flow_paused ?p \<and> \<not> flow_connection_lost ?p \<and>
          flow_drain_waiter ?p = None" "nfut ?p = 2"
    by (simp_all add: connection_init_def DEFAULT_LIMIT_def pause_writing_def)
  from suspended_drain_outcomes [OF h, of "TransportError 1" "[]" ?t "''x''" ?p] h rd t p
  show ?thesis by simp
qed

text \<open>
  The claim as it is written fails: after \<^verbatim>\<open>connection_lost(err)\<close> with an error, the
  suspended drain fails with \<open>err\<close>, but the stream has stored \<open>err\<close>, and a later
  \<^verbatim>\<open>drain()\<close> and the awaitable of a later \<^verbatim>\<open>write()\<close> fail with \<open>err\<close> again, not with
  \<^verbatim>\<open>ConnectionResetError\<close>.
\<close>

theorem later_drain_counterexample:
  "fst (drain (projr (pause_writing (projr (connection_init True True DEFAULT_LIMIT))))) =
     Awaiting 2 \<and>
   drain_resume 2 (projr (base_connection_lost (Some (TransportError 1)) paused_drain)) =
     Raised (TransportError 1) \<and>
   flow_connection_lost (projr (base_connection_lost (Some (TransportError 1)) paused_drain)) \<and>
   drain_outcome (projr (base_connection_lost (Some (TransportError 1)) paused_drain)) =
     Raised (TransportError 1) \<and>
   write_outcome ''x'' (projr (base_connection_lost (Some (TransportError 1)) paused_drain)) =
     Raised (TransportError 1)"
  by (simp add: flow_eval)

section \<open>Event\<close>

record event =
  ev_value :: bool
  ev_waiters :: "nat list"

definition event_init :: event where
  "event_init = \<lparr>ev_value = False, ev_waiters = []\<rparr>"

text \<open>\<^verbatim>\<open>Event.set\<close> works on the event and on the futures of the loop.\<close>

definition event_set :: "event \<Rightarrow> (nat \<Rightarrow> fut) \<Rightarrow> event \<times> (nat \<Rightarrow> fut)" where
  "event_set e h =
     (if \<not> ev_value e
      then (e\<lparr>ev_value := True\<rparr>,
            fold (\<lambda>fut h. if \<not> fut_done (h fut) then h(fut := Result) else h) (ev_waiters e) h)
      else (e, h))"

definition event_clear :: "event \<Rightarrow> event" where
  "event_clear e = e\<lparr>ev_value := False\<rparr>"

text \<open>
  The \<^verbatim>\<open>finally\<close> clause of \<^verbatim>\<open>Event.wait\<close>: \<^verbatim>\<open>self._waiters.remove(fut)\<close>, which raises
  \<^verbatim>\<open>ValueError\<close> when the future is not in the deque.
\<close>

definition event_remove :: "nat \<Rightarrow> event \<Rightarrow> exn + event" where
  "event_remove fut e =
     (if fut \<in> set (ev_waiters e) then Inr (e\<lparr>ev_waiters := remove1 fut (ev_waiters e)\<rparr>)
      else Inl (ValueError ''deque.remove(x): x not in deque''))"

section \<open>Barrier\<close>

text \<open>The optional \<^verbatim>\<open>action\<close> of a barrier either returns or raises.\<close>

datatype action = ActionReturns | ActionRaises exn

record barrier = loop +
  b_waiting :: event
  b_blocking :: event
  b_action :: "action option"
  b_parties :: int
  b_state :: int
  b_count :: int

definition barrier_init :: "int \<Rightarrow> action option \<Rightarrow> exn + barrier" where
  "barrier_init parties action =
     (if parties < 1 then Inl (ValueError ''parties must be > 0'')
      else Inr \<lparr>futs = (\<lambda>_. Pending), nfut = 0,
                b_waiting = event_init, b_blocking = event_init, b_action = action,
                b_parties = parties, b_state = 0, b_count = 0\<rparr>)"

definition waiting_set :: "'a barrier_scheme \<Rightarrow> 'a barrier_scheme" where
  "waiting_set s =
     (case event_set (b_waiting s) (futs s) of (e, h) \<Rightarrow> s\<lparr>b_waiting := e, futs := h\<rparr>)"

definition blocking_set :: "'a barrier_scheme \<Rightarrow> 'a barrier_scheme" where
  "blocking_set s =
     (case event_set (b_blocking s) (futs s) of (e, h) \<Rightarrow> s\<lparr>b_blocking := e, futs := h\<rparr>)"

definition abort :: "'a barrier_scheme \<Rightarrow> 'a barrier_scheme" where
  "abort s =
     (let s1 = waiting_set (s\<lparr>b_state := - 2\<rparr>)
      in s1\<lparr>b_blocking := event_clear (b_blocking s1)\<rparr>)"

definition reset :: "'a barrier_scheme \<Rightarrow> 'a barrier_scheme" where
  "reset s =
     (if b_count s > 0 then
        let s1 = (if b_state s = 0 \<or> b_state s = 1 then s\<lparr>b_state := - 1\<rparr>
                  else if b_state s = - 2 then s\<lparr>b_state := - 1\<rparr>
                  else s);
            s2 = waiting_set s1
        in s2\<lparr>b_blocking := event_clear (b_blocking s2)\<rparr>
      else s\<lparr>b_state := 0\<rparr>)"

text \<open>\<^verbatim>\<open>Barrier._release\<close>: the exception it raises, if any, and the new state.\<close>

definition barrier_release :: "'a barrier_scheme \<Rightarrow> exn option \<times> 'a barrier_scheme" where
  "barrier_release s =
     (case b_action s of
        Some (ActionRaises e) \<Rightarrow> (Some e, abort s)
      | _ \<Rightarrow>
          let s1 = s\<lparr>b_state := 1\<rparr>;
              s2 = s1\<lparr>b_blocking := event_clear (b_blocking s1)\<rparr>
          in (None, waiting_set s2))"

definition barrier_exit :: "'a barrier_scheme \<Rightarrow> 'a barrier_scheme" where
  "barrier_exit s =
     (if b_count s = 0 then
        let s1 = (if b_state s = 1 then s\<lparr>b_state := 0\<rparr>
                  else if b_state s = - 1 then s\<lparr>b_state := 0\<rparr>
                  else s);
            s2 = s1\<lparr>b_waiting := event_clear (b_waiting s1)\<rparr>
        in blocking_set s2
      else s)"

text \<open>The \<^verbatim>\<open>finally\<close> clause of \<^verbatim>\<open>Barrier.wait\<close>.\<close>

definition wait_finally :: "'a barrier_scheme \<Rightarrow> 'a barrier_scheme" where
  "wait_finally s = barrier_exit (s\<lparr>b_count := b_count s - 1\<rparr>)"

text \<open>
  Where a task stands in \<^verbatim>\<open>Barrier.wait\<close>: not in a call, suspended in \<^verbatim>\<open>_block\<close> on a
  future of the blocking event, suspended in \<^verbatim>\<open>_wait\<close> with its index on a future of
  the waiting event (each with the flag of a cancellation that came after the future
  was done), back with a result, or spinning: when \<^verbatim>\<open>_block\<close> finds the barrier
  draining or resetting and the blocking event set, \<^verbatim>\<open>Event.wait\<close> returns at once and
  the loop never suspends.
\<close>

datatype btask =
    BIdle | BBlocked nat bool | BInside int nat bool | BReturned int | BRaised exn | BSpinning

text \<open>
  The part of \<^verbatim>\<open>Barrier._wait\<close> after its await, inside the \<^verbatim>\<open>try\<close> of \<^verbatim>\<open>Barrier.wait\<close>.
\<close>

definition wait_released :: "int \<Rightarrow> 'a barrier_scheme \<Rightarrow> btask \<times> 'a barrier_scheme" where
  "wait_released index s =
     (if b_state s < 0 then (BRaised BrokenBarrierError, wait_finally s)
      else (BReturned index, wait_finally s))"

text \<open>
  \<^verbatim>\<open>Barrier.wait\<close> from the head of the loop of \<^verbatim>\<open>_block\<close> to the next suspension or
  the end of the call.
\<close>

definition wait_enter :: "'a barrier_scheme \<Rightarrow> btask \<times> 'a barrier_scheme" where
  "wait_enter s =
     (if b_state s = - 1 \<or> b_state s = 1 then
        if ev_value (b_blocking s) then (BSpinning, s)
        else
          let (fut, s1) = create_future s;
              e = b_blocking s1
          in (BBlocked fut False, s1\<lparr>b_blocking := e\<lparr>ev_waiters := ev_waiters e @ [fut]\<rparr>\<rparr>)
      else if b_state s < 0 then (BRaised BrokenBarrierError, s)
      else
        let index = b_count s;
            s1 = s\<lparr>b_count := b_count s + 1\<rparr>
        in if index + 1 = b_parties s1 then
             (case barrier_release s1 of
                (None, s2) \<Rightarrow> (BReturned index, wait_finally s2)
              | (Some e, s2) \<Rightarrow> (BRaised e, wait_finally s2))
           else if ev_value (b_waiting s1) then wait_released index s1
           else
             let (fut, s2) = create_future s1;
                 e = b_waiting s2
             in (BInside index fut False,
                 s2\<lparr>b_waiting := e\<lparr>ev_waiters := ev_waiters e @ [fut]\<rparr>\<rparr>))"

text \<open>A task suspended in \<^verbatim>\<open>_block\<close> runs again; \<open>exc\<close> is what its await raised.\<close>

definition block_resume :: "nat \<Rightarrow> exn option \<Rightarrow> 'a barrier_scheme \<Rightarrow> btask \<times> 'a barrier_scheme" where
  "block_resume fut exc s =
     (case event_remove fut (b_blocking s) of
        Inl e \<Rightarrow> (BRaised e, s)
      | Inr ev \<Rightarrow>
          let s1 = s\<lparr>b_blocking := ev\<rparr> in
          (case exc of Some e \<Rightarrow> (BRaised e, s1) | None \<Rightarrow> wait_enter s1))"

text \<open>A task suspended in \<^verbatim>\<open>_wait\<close> runs again.\<close>

definition inside_resume ::
  "int \<Rightarrow> nat \<Rightarrow> exn option \<Rightarrow> 'a barrier_scheme \<Rightarrow> btask \<times> 'a barrier_scheme" where
  "inside_resume index fut exc s =
     (case event_remove fut (b_waiting s) of
        Inl e \<Rightarrow> (BRaised e, wait_finally s)
      | Inr ev \<Rightarrow>
          let s1 = s\<lparr>b_waiting := ev\<rparr> in
          (case exc of
             Some e \<Rightarrow> (BRaised e, wait_finally s1)
           | None \<Rightarrow> wait_released index s1))"

subsection \<open>Tasks using a barrier\<close>

datatype bevent = BWait nat | BResume nat | BCancel nat | BReset | BAbort

record bsys = barrier +
  btasks :: "nat \<Rightarrow> btask"

definition bsys_init :: "int \<Rightarrow> action option \<Rightarrow> exn + bsys" where
  "bsys_init parties action =
     (if parties < 1 then Inl (ValueError ''parties must be > 0'')
      else Inr \<lparr>futs = (\<lambda>_. Pending), nfut = 0,
                b_waiting = event_init, b_blocking = event_init, b_action = action,
                b_parties = parties, b_state = 0, b_count = 0, btasks = (\<lambda>_. BIdle)\<rparr>)"

definition set_btask :: "nat \<Rightarrow> btask \<times> bsys \<Rightarrow> bsys" where
  "set_btask t r = (case r of (k, s) \<Rightarrow> s\<lparr>btasks := (btasks s)(t := k)\<rparr>)"

text \<open>
  One step: a task calls \<^verbatim>\<open>wait()\<close> (when it is not inside a call), a suspended task
  whose future is done runs again, a suspended task is cancelled, or somebody calls
  \<^verbatim>\<open>reset()\<close> or \<^verbatim>\<open>abort()\<close>.
\<close>

fun bstep :: "bevent \<Rightarrow> bsys \<Rightarrow> bsys" where
  "bstep (BWait t) s =
     (case btasks s t of
        BBlocked _ _ \<Rightarrow> s
      | BInside _ _ _ \<Rightarrow> s
      | BSpinning \<Rightarrow> s
      | _ \<Rightarrow> set_btask t (wait_enter s))"
| "bstep (BResume t) s =
     (case btasks s t of
        BBlocked fut must_cancel \<Rightarrow>
          if \<not> fut_done (futs s fut) then s
          else set_btask t (block_resume fut (await_outcome must_cancel (futs s fut)) s)
      | BInside index fut must_cancel \<Rightarrow>
          if \<not> fut_done (futs s fut) then s
          else set_btask t (inside_resume index fut (await_outcome must_cancel (futs s fut)) s)
      | _ \<Rightarrow> s)"
| "bstep (BCancel t) s =
     (case btasks s t of
        BBlocked fut must_cancel \<Rightarrow>
          if fut_done (futs s fut) then s\<lparr>btasks := (btasks s)(t := BBlocked fut True)\<rparr>
          else s\<lparr>futs := (futs s)(fut := Cancelled)\<rparr>
      | BInside index fut must_cancel \<Rightarrow>
          if fut_done (futs s fut) then s\<lparr>btasks := (btasks s)(t := BInside index fut True)\<rparr>
          else s\<lparr>futs := (futs s)(fut := Cancelled)\<rparr>
      | _ \<Rightarrow> s)"
| "bstep BReset s = reset s"
| "bstep BAbort s = abort s"

definition brun :: "bevent list \<Rightarrow> bsys \<Rightarrow> bsys" where
  "brun evs s = fold bstep evs s"

definition barrier_demo :: "int \<Rightarrow> bevent list \<Rightarrow> bsys" where
  "barrier_demo parties evs = brun evs (projr (bsys_init parties None))"

lemmas barrier_eval =
  barrier_demo_def brun_def bsys_init_def set_btask_def wait_enter_def block_resume_def
  inside_resume_def wait_released_def wait_finally_def barrier_exit_def barrier_release_def
  reset_def abort_def waiting_set_def blocking_set_def event_set_def event_clear_def
  event_remove_def event_init_def create_future_def await_outcome_def fut_done_def

text \<open>
  A full cycle of a new barrier of three parties: the first two callers suspend, the
  third releases them, and the calls return 0, 1 and 2; the barrier is filling again.
\<close>

lemma barrier_cycle_example:
  "btasks (barrier_demo 3 [BWait 0, BWait 1]) 0 = BInside 0 0 False"
  "btasks (barrier_demo 3 [BWait 0, BWait 1]) 1 = BInside 1 1 False"
  "btasks (barrier_demo 3 [BWait 0, BWait 1, BWait 2, BResume 0, BResume 1]) 0 = BReturned 0"
  "btasks (barrier_demo 3 [BWait 0, BWait 1, BWait 2, BResume 0, BResume 1]) 1 = BReturned 1"
  "btasks (barrier_demo 3 [BWait 0, BWait 1, BWait 2, BResume 0, BResume 1]) 2 = BReturned 2"
  "b_state (barrier_demo 3 [BWait 0, BWait 1, BWait 2, BResume 0, BResume 1]) = 0"
  "b_count (barrier_demo 3 [BWait 0, BWait 1, BWait 2, BResume 0, BResume 1]) = 0"
  "\<not> ev_value (b_waiting (barrier_demo 3 [BWait 0, BWait 1, BWait 2, BResume 0, BResume 1]))"
  by (simp_all add: barrier_eval)

text \<open>\<^verbatim>\<open>reset()\<close> with two tasks inside: both fail with \<^verbatim>\<open>BrokenBarrierError\<close>.\<close>

lemma barrier_reset_example:
  "btasks (barrier_demo 3 [BWait 0, BWait 1, BReset, BResume 0, BResume 1]) 0 =
     BRaised BrokenBarrierError"
  "btasks (barrier_demo 3 [BWait 0, BWait 1, BReset, BResume 0, BResume 1]) 1 =
     BRaised BrokenBarrierError"
  "b_state (barrier_demo 3 [BWait 0, BWait 1, BReset, BResume 0, BResume 1]) = 0"
  by (simp_all add: barrier_eval)

text \<open>
  Claim C7 fails on the code. On a barrier of two parties with nobody inside,
  \<^verbatim>\<open>abort()\<close> sets the waiting event; \<^verbatim>\<open>reset()\<close> then finds \<^verbatim>\<open>_count == 0\<close> and only
  sets the state back to filling, so the waiting event stays set. The next single
  call of \<^verbatim>\<open>wait()\<close> takes index 0, finds the waiting event set and returns 0 at once,
  without a second party; on a new barrier the same call suspends.
\<close>

theorem barrier_reset_after_abort_releases_alone:
  "b_state (barrier_demo 2 [BAbort, BReset]) = 0 \<and>
   b_count (barrier_demo 2 [BAbort, BReset]) = 0 \<and>
   ev_value (b_waiting (barrier_demo 2 [BAbort, BReset])) \<and>
   btasks (barrier_demo 2 [BAbort, BReset, BWait 0]) 0 = BReturned 0 \<and>
   btasks (barrier_demo 2 [BAbort, BReset, BWait 0]) 1 = BIdle \<and>
   btasks (barrier_demo 2 [BWait 0]) 0 = BInside 0 0 False"
  by (simp add: barrier_eval)

subsection \<open>A cycle of a barrier that starts clean\<close>

text \<open>
  Apart from the state that \<^verbatim>\<open>abort()\<close> and \<^verbatim>\<open>reset()\<close> leave behind on an empty
  barrier, the barrier does what is expected of it, for every number of parties.
\<close>

declare bstep.simps [simp del]

definition callable :: "btask \<Rightarrow> bool" where
  "callable k = (case k of BBlocked _ _ \<Rightarrow> False | BInside _ _ _ \<Rightarrow> False
                 | BSpinning \<Rightarrow> False | _ \<Rightarrow> True)"

definition static :: "nat \<Rightarrow> bsys \<Rightarrow> bool" where
  "static N s \<longleftrightarrow> b_parties s = int N \<and> (\<forall>e. b_action s \<noteq> Some (ActionRaises e))"

definition filling :: "nat \<Rightarrow> nat \<Rightarrow> bsys \<Rightarrow> bool" where
  "filling n0 k s \<longleftrightarrow>
     b_state s = 0 \<and> b_count s = int k \<and> \<not> ev_value (b_waiting s) \<and>
     ev_waiters (b_waiting s) = map (\<lambda>i. n0 + i) [0..<k] \<and> nfut s = n0 + k \<and>
     (\<forall>i<k. futs s (n0 + i) = Pending \<and> btasks s i = BInside (int i) (n0 + i) False) \<and>
     (\<forall>t\<ge>k. callable (btasks s t))"

lemma fill_step:
  assumes "static N s" "filling n0 k s" "Suc k < N"
  shows "static N (bstep (BWait k) s) \<and> filling n0 (Suc k) (bstep (BWait k) s)"
proof -
  from assms(2) have c: "callable (btasks s k)" by (simp add: filling_def)
  have e: "wait_enter s =
      (BInside (int k) (n0 + k) False,
       s\<lparr>futs := (futs s)(n0 + k := Pending), nfut := Suc (n0 + k),
         b_count := int k + 1,
         b_waiting := (b_waiting s)\<lparr>ev_waiters := ev_waiters (b_waiting s) @ [n0 + k]\<rparr>\<rparr>)"
    using assms by (simp add: wait_enter_def filling_def static_def create_future_def Let_def)
  from c have "bstep (BWait k) s = set_btask k (wait_enter s)"
    by (cases "btasks s k") (simp_all add: callable_def bstep.simps)
  then have b: "bstep (BWait k) s =
      s\<lparr>futs := (futs s)(n0 + k := Pending), nfut := Suc (n0 + k),
        b_count := int k + 1,
        b_waiting := (b_waiting s)\<lparr>ev_waiters := ev_waiters (b_waiting s) @ [n0 + k]\<rparr>,
        btasks := (btasks s)(k := BInside (int k) (n0 + k) False)\<rparr>"
    unfolding e by (simp add: set_btask_def)
  show ?thesis unfolding b using assms(1,2)
    by (auto simp: static_def filling_def less_Suc_eq)
qed


lemma resolve_all:
  "fold (\<lambda>fut h. if \<not> fut_done (h fut) then h(fut := Result) else h) fs h x =
     (if x \<in> set fs \<and> h x = Pending then Result else h x)"
  by (induction fs arbitrary: h) (auto simp: fut_done_def)

definition draining :: "nat \<Rightarrow> nat \<Rightarrow> nat \<Rightarrow> bsys \<Rightarrow> bool" where
  "draining n0 j m s \<longleftrightarrow>
     j < m \<and> b_state s = 1 \<and> b_count s = int (m - j) \<and>
     ev_waiters (b_waiting s) = map (\<lambda>i. n0 + i) [j..<m] \<and>
     (\<forall>i. j \<le> i \<and> i < m \<longrightarrow>
        futs s (n0 + i) = Result \<and> btasks s i = BInside (int i) (n0 + i) False) \<and>
     (\<forall>i<j. btasks s i = BReturned (int i)) \<and> btasks s m = BReturned (int m)"

definition clean :: "bsys \<Rightarrow> bool" where
  "clean s \<longleftrightarrow>
     b_state s = 0 \<and> b_count s = 0 \<and> \<not> ev_value (b_waiting s) \<and>
     ev_waiters (b_waiting s) = []"

lemma barrier_release_ok:
  assumes "\<forall>e. b_action s \<noteq> Some (ActionRaises e)"
  shows "barrier_release s =
      (None, waiting_set (s\<lparr>b_state := 1, b_blocking := event_clear (b_blocking s)\<rparr>))"
proof (cases "b_action s")
  case None
  then show ?thesis by (simp add: barrier_release_def)
next
  case (Some a)
  with assms show ?thesis by (cases a) (simp_all add: barrier_release_def)
qed

lemma release_step:
  assumes "static N s" "filling n0 k s" "Suc k = N"
  shows "static N (bstep (BWait k) s) \<and> btasks (bstep (BWait k) s) k = BReturned (int k) \<and>
         (if k = 0 then clean (bstep (BWait k) s) else draining n0 0 k (bstep (BWait k) s))"
proof -
  from assms(2) have c: "callable (btasks s k)" by (simp add: filling_def)
  then have b: "bstep (BWait k) s = set_btask k (wait_enter s)"
    by (cases "btasks s k") (simp_all add: callable_def bstep.simps)
  have e: "wait_enter s =
      (BReturned (int k),
       wait_finally (waiting_set (s\<lparr>b_count := b_count s + 1, b_state := 1,
                                    b_blocking := event_clear (b_blocking s)\<rparr>)))"
    using assms by (simp add: wait_enter_def filling_def static_def Let_def barrier_release_ok)
  show ?thesis
  proof (cases "k = 0")
    case True
    with assms(1,2) show ?thesis unfolding b e
      by (simp add: set_btask_def wait_finally_def waiting_set_def event_set_def
          barrier_exit_def blocking_set_def event_clear_def static_def filling_def clean_def
          Let_def split: prod.splits)
  next
    case False
    with assms(1,2) show ?thesis unfolding b e
      by (auto simp: set_btask_def wait_finally_def waiting_set_def event_set_def
          barrier_exit_def event_clear_def static_def filling_def draining_def
          resolve_all Let_def split: prod.splits)
  qed
qed


lemma drain_step:
  assumes "draining n0 j m s"
  shows "if Suc j < m then draining n0 (Suc j) m (bstep (BResume j) s)
         else clean (bstep (BResume j) s) \<and>
              (\<forall>i\<le>m. btasks (bstep (BResume j) s) i = BReturned (int i))"
proof -
  from assms have jm: "j < m" and t: "btasks s j = BInside (int j) (n0 + j) False"
    and f: "futs s (n0 + j) = Result"
    and w: "ev_waiters (b_waiting s) = (n0 + j) # map (\<lambda>i. n0 + i) [Suc j..<m]"
    and st: "b_state s = 1" and c: "b_count s = int (m - j)"
    by (auto simp: draining_def upt_conv_Cons)
  have r: "event_remove (n0 + j) (b_waiting s) =
      Inr ((b_waiting s)\<lparr>ev_waiters := map (\<lambda>i. n0 + i) [Suc j..<m]\<rparr>)"
    using w by (simp add: event_remove_def)
  have b: "bstep (BResume j) s =
      (wait_finally (s\<lparr>b_waiting := (b_waiting s)\<lparr>ev_waiters := map (\<lambda>i. n0 + i) [Suc j..<m]\<rparr>\<rparr>))
        \<lparr>btasks := (btasks s)(j := BReturned (int j))\<rparr>"
    using t f st
    by (simp add: bstep.simps fut_done_def await_outcome_def inside_resume_def r wait_released_def
        set_btask_def wait_finally_def barrier_exit_def blocking_set_def Let_def
        split: prod.splits)
  show ?thesis
  proof (cases "Suc j < m")
    case True
    then have "int (m - j) - 1 \<noteq> 0" "int (m - j) - 1 = int (m - Suc j)" by simp_all
    with True assms show ?thesis unfolding b
      by (auto simp: wait_finally_def barrier_exit_def draining_def less_Suc_eq)
  next
    case False
    with jm have e: "m = Suc j" by simp
    then have z: "int (m - j) - 1 = 0" by simp
    from assms show ?thesis unfolding b e
      by (auto simp: wait_finally_def barrier_exit_def blocking_set_def event_clear_def
          draining_def clean_def Let_def le_Suc_eq less_Suc_eq split: prod.splits)
  qed
qed


lemma brun_snoc: "brun (evs @ [e]) s = bstep e (brun evs s)"
  by (simp add: brun_def)

lemma brun_append: "brun (evs @ evs') s = brun evs' (brun evs s)"
  by (simp add: brun_def)

lemma brun_upt_Suc: "brun (map f [0..<Suc k]) s = bstep (f k) (brun (map f [0..<k]) s)"
  by (simp add: brun_def)

lemma fill_run:
  assumes "static N s" "filling n0 0 s" "k < N"
  shows "static N (brun (map BWait [0..<k]) s) \<and> filling n0 k (brun (map BWait [0..<k]) s)"
  using assms(3)
proof (induction k)
  case 0
  with assms show ?case by (simp add: brun_def)
next
  case (Suc k)
  then have "static N (brun (map BWait [0..<k]) s)" "filling n0 k (brun (map BWait [0..<k]) s)"
    by simp_all
  from fill_step[OF this Suc.prems] show ?case
    unfolding brun_upt_Suc .
qed

lemma drain_run:
  assumes "draining n0 0 m s" "j \<le> m"
  shows "if j < m then draining n0 j m (brun (map BResume [0..<j]) s)
         else clean (brun (map BResume [0..<j]) s) \<and>
              (\<forall>i\<le>m. btasks (brun (map BResume [0..<j]) s) i = BReturned (int i))"
  using assms(2)
proof (induction j)
  case 0
  with assms(1) show ?case by (simp add: brun_def draining_def)
next
  case (Suc j)
  then have "draining n0 j m (brun (map BResume [0..<j]) s)" by simp
  from drain_step[OF this] Suc.prems show ?case
    unfolding brun_upt_Suc by simp
qed

text \<open>
  A barrier of \<open>N\<close> parties is filling, with nobody inside, its waiting event clear
  and without waiters, and its action, if any, returns; the tasks \<open>0, \<dots>, N - 1\<close> are
  not inside a call. They call \<^verbatim>\<open>wait()\<close> in this order, and the released tasks run
  again in the order in which their futures were completed. After \<open>k < N\<close> calls all
  \<open>k\<close> callers are suspended inside the barrier; after the \<open>N\<close> calls have run, call
  \<open>t\<close> has returned \<open>t\<close>, and the barrier is as clean as at the start.
\<close>

lemma barrier_clean_cycle:
  assumes "static N s" "filling n0 0 s" "0 < N"
  shows "\<forall>k<N. \<forall>t<k. btasks (brun (map BWait [0..<k]) s) t = BInside (int t) (n0 + t) False"
    and "\<forall>t<N. btasks (brun (map BWait [0..<N] @ map BResume [0..<N - 1]) s) t
           = BReturned (int t)"
    and "clean (brun (map BWait [0..<N] @ map BResume [0..<N - 1]) s)"
proof -
  show "\<forall>k<N. \<forall>t<k. btasks (brun (map BWait [0..<k]) s) t = BInside (int t) (n0 + t) False"
    using fill_run[OF assms(1,2)] by (auto simp: filling_def)
  obtain m where N: "N = Suc m" using assms(3) by (cases N) auto
  let ?f = "brun (map BWait [0..<m]) s"
  from fill_run[OF assms(1,2), of m] N have sf: "static N ?f" "filling n0 m ?f" by simp_all
  from N have "Suc m = N" by simp
  from release_step[OF sf this]
  have r: "btasks (bstep (BWait m) ?f) m = BReturned (int m)"
    "if m = 0 then clean (bstep (BWait m) ?f) else draining n0 0 m (bstep (BWait m) ?f)"
    by blast+
  have e: "brun (map BWait [0..<N] @ map BResume [0..<N - 1]) s =
      brun (map BResume [0..<m]) (bstep (BWait m) ?f)"
    unfolding N by (simp only: brun_append brun_upt_Suc diff_Suc_1)
  have "clean (brun (map BResume [0..<m]) (bstep (BWait m) ?f)) \<and>
        (\<forall>i\<le>m. btasks (brun (map BResume [0..<m]) (bstep (BWait m) ?f)) i = BReturned (int i))"
  proof (cases "m = 0")
    case True
    with r show ?thesis by (simp add: brun_def)
  next
    case False
    with r have "draining n0 0 m (bstep (BWait m) ?f)" by simp
    from drain_run[OF this, of m] show ?thesis by simp
  qed
  then have "clean (brun (map BWait [0..<N] @ map BResume [0..<N - 1]) s) \<and>
      (\<forall>i\<le>m. btasks (brun (map BWait [0..<N] @ map BResume [0..<N - 1]) s) i
         = BReturned (int i))"
    unfolding e .
  then show "\<forall>t<N. btasks (brun (map BWait [0..<N] @ map BResume [0..<N - 1]) s) t
           = BReturned (int t)"
    and "clean (brun (map BWait [0..<N] @ map BResume [0..<N - 1]) s)"
    using N by (simp_all only: less_Suc_eq_le) blast+
qed


definition breaking :: "nat \<Rightarrow> nat \<Rightarrow> nat \<Rightarrow> bsys \<Rightarrow> bool" where
  "breaking n0 j m s \<longleftrightarrow>
     j < m \<and> b_state s = - 1 \<and> b_count s = int (m - j) \<and>
     ev_waiters (b_waiting s) = map (\<lambda>i. n0 + i) [j..<m] \<and>
     (\<forall>i. j \<le> i \<and> i < m \<longrightarrow>
        futs s (n0 + i) = Result \<and> btasks s i = BInside (int i) (n0 + i) False) \<and>
     (\<forall>i<j. btasks s i = BRaised BrokenBarrierError)"

lemma reset_filling:
  assumes "filling n0 k s" "0 < k"
  shows "breaking n0 0 k (bstep BReset s)"
  using assms
  by (auto simp: bstep.simps reset_def filling_def breaking_def waiting_set_def event_set_def
      event_clear_def resolve_all Let_def split: prod.splits)

lemma break_step:
  assumes "breaking n0 j m s"
  shows "if Suc j < m then breaking n0 (Suc j) m (bstep (BResume j) s)
         else clean (bstep (BResume j) s) \<and>
              (\<forall>i<m. btasks (bstep (BResume j) s) i = BRaised BrokenBarrierError)"
proof -
  from assms have jm: "j < m" and t: "btasks s j = BInside (int j) (n0 + j) False"
    and f: "futs s (n0 + j) = Result"
    and w: "ev_waiters (b_waiting s) = (n0 + j) # map (\<lambda>i. n0 + i) [Suc j..<m]"
    and st: "b_state s = - 1" and c: "b_count s = int (m - j)"
    by (auto simp: breaking_def upt_conv_Cons)
  have r: "event_remove (n0 + j) (b_waiting s) =
      Inr ((b_waiting s)\<lparr>ev_waiters := map (\<lambda>i. n0 + i) [Suc j..<m]\<rparr>)"
    using w by (simp add: event_remove_def)
  have b: "bstep (BResume j) s =
      (wait_finally (s\<lparr>b_waiting := (b_waiting s)\<lparr>ev_waiters := map (\<lambda>i. n0 + i) [Suc j..<m]\<rparr>\<rparr>))
        \<lparr>btasks := (btasks s)(j := BRaised BrokenBarrierError)\<rparr>"
    using t f st
    by (simp add: bstep.simps fut_done_def await_outcome_def inside_resume_def r
        wait_released_def set_btask_def wait_finally_def barrier_exit_def blocking_set_def
        Let_def split: prod.splits)
  show ?thesis
  proof (cases "Suc j < m")
    case True
    then have "int (m - j) - 1 \<noteq> 0" "int (m - j) - 1 = int (m - Suc j)" by simp_all
    with True assms show ?thesis unfolding b
      by (auto simp: wait_finally_def barrier_exit_def breaking_def less_Suc_eq)
  next
    case False
    with jm have e: "m = Suc j" by simp
    from assms show ?thesis unfolding b e
      by (auto simp: wait_finally_def barrier_exit_def blocking_set_def event_clear_def
          breaking_def clean_def Let_def less_Suc_eq split: prod.splits)
  qed
qed

lemma break_run:
  assumes "breaking n0 0 m s" "j \<le> m"
  shows "if j < m then breaking n0 j m (brun (map BResume [0..<j]) s)
         else clean (brun (map BResume [0..<j]) s) \<and>
              (\<forall>i<m. btasks (brun (map BResume [0..<j]) s) i = BRaised BrokenBarrierError)"
  using assms(2)
proof (induction j)
  case 0
  with assms(1) show ?case by (simp add: brun_def breaking_def)
next
  case (Suc j)
  then have "breaking n0 j m (brun (map BResume [0..<j]) s)" by simp
  from break_step[OF this] Suc.prems show ?case
    unfolding brun_upt_Suc by simp
qed

text \<open>
  \<^verbatim>\<open>reset()\<close> while \<open>k > 0\<close> tasks are suspended inside a filling barrier: each of them
  fails with \<^verbatim>\<open>BrokenBarrierError\<close> when it runs again, and the last one leaves the
  barrier clean.
\<close>

lemma barrier_reset_breaks:
  assumes "filling n0 k s" "0 < k"
  shows "\<forall>t<k. btasks (brun (BReset # map BResume [0..<k]) s) t = BRaised BrokenBarrierError"
    and "clean (brun (BReset # map BResume [0..<k]) s)"
proof -
  have e: "brun (BReset # map BResume [0..<k]) s = brun (map BResume [0..<k]) (bstep BReset s)"
    by (simp add: brun_def)
  from break_run[OF reset_filling[OF assms], of k]
  show "\<forall>t<k. btasks (brun (BReset # map BResume [0..<k]) s) t = BRaised BrokenBarrierError"
    and "clean (brun (BReset # map BResume [0..<k]) s)"
    unfolding e by simp_all
qed

end
